theory Spec2Isabelle
  imports Main "HOL-Library.Sublist" "HOL-Library.Multiset"
begin

section \<open>Data model of \<open>main.cpp\<close>\<close>

text \<open>
  \<open>struct Node\<close>: a symbol, a frequency and two child pointers, each of which may be
  \<open>nullptr\<close> (\<open>None\<close>). A \<open>Node*\<close> is a \<open>node option\<close>. Nodes are never shared or
  mutated after they are linked, so a pointer is modelled by the tree it points to.
  \<open>char\<close> is the 8-bit character type; \<open>int\<close> is taken to be 32 bits wide and a signed
  overflow (undefined behaviour in C++) is an error of the model.
\<close>

datatype node = Node (ch: char) (freq: int) (left: "node option") (right: "node option")

text \<open>
  What ends a run abnormally: a read through a null \<open>Node*\<close>, \<open>pq.top()\<close> on an empty
  queue, the \<open>std::out_of_range\<close> exception of \<open>codes.at\<close>, and an \<open>int\<close> result outside
  the range of \<open>int\<close>.
\<close>

datatype error =
    NullDereference
  | EmptyQueueTop
  | OutOfRange
  | SignedOverflow

definition INT_MAX :: int where
  "INT_MAX = 2147483647"

definition INT_MIN :: int where
  "INT_MIN = - 2147483648"

definition in_int :: "int \<Rightarrow> bool" where
  "in_int x = (INT_MIN \<le> x \<and> x \<le> INT_MAX)"

text \<open>\<open>struct Compare\<close>: \<open>a\<close> is ordered below \<open>b\<close> when its frequency is greater.\<close>

definition Compare :: "node \<Rightarrow> node \<Rightarrow> bool" where
  "Compare a b = (freq a > freq b)"

text \<open>The test \<open>!node->left && !node->right\<close> of \<open>buildCodes\<close> and \<open>decode\<close>.\<close>

definition is_leaf :: "node \<Rightarrow> bool" where
  "is_leaf n = (left n = None \<and> right n = None)"

section \<open>\<open>buildCodes\<close>\<close>

text \<open>
  The \<open>unordered_map<char, string>\<close> passed by reference is threaded through the
  recursion; \<open>codes[node->ch] = code\<close> overwrites an existing entry.
\<close>

fun buildCodes :: "node option \<Rightarrow> string \<Rightarrow> (char \<rightharpoonup> string) \<Rightarrow> (char \<rightharpoonup> string)" where
  "buildCodes None code codes = codes"
| "buildCodes (Some (Node c f l r)) code codes =
     (if l = None \<and> r = None then codes(c \<mapsto> code)
      else buildCodes r (code @ ''1'') (buildCodes l (code @ ''0'') codes))"

section \<open>\<open>encode\<close>\<close>

text \<open>\<open>codes.at(ch)\<close> throws \<open>std::out_of_range\<close> when \<open>ch\<close> is not a key.\<close>

fun encode_loop :: "string \<Rightarrow> (char \<rightharpoonup> string) \<Rightarrow> string \<Rightarrow> error + string" where
  "encode_loop [] codes result = Inr result"
| "encode_loop (c # text) codes result =
     (case codes c of
        None \<Rightarrow> Inl OutOfRange
      | Some code \<Rightarrow> encode_loop text codes (result @ code))"

definition encode :: "string \<Rightarrow> (char \<rightharpoonup> string) \<Rightarrow> error + string" where
  "encode text codes = encode_loop text codes []"

section \<open>\<open>decode\<close>\<close>

text \<open>
  The loop state is the output so far and the pointer \<open>current\<close>. Reading \<open>current->left\<close>
  or \<open>current->right\<close> through a null \<open>current\<close> is undefined behaviour, an error of the
  model. The function returns the final \<open>current\<close> beside the output.
\<close>

fun decode_loop :: "string \<Rightarrow> node option \<Rightarrow> node option \<Rightarrow> string \<Rightarrow> error + (string \<times> node option)" where
  "decode_loop [] root current result = Inr (result, current)"
| "decode_loop (b # encoded) root current result =
     (case current of
        None \<Rightarrow> Inl NullDereference
      | Some c \<Rightarrow>
          (case (if b = CHR ''0'' then left c else right c) of
             None \<Rightarrow> Inl NullDereference
           | Some n \<Rightarrow>
               if left n = None \<and> right n = None
               then decode_loop encoded root root (result @ [ch n])
               else decode_loop encoded root (Some n) result))"

definition decode :: "string \<Rightarrow> node option \<Rightarrow> error + string" where
  "decode encoded root = map_sum id fst (decode_loop encoded root root [])"

section \<open>\<open>main\<close>\<close>

subsection \<open>Counting frequencies\<close>

text \<open>\<open>freq[ch]++\<close>: a missing key is inserted with 0, then the count is incremented.\<close>

definition bump :: "(char \<rightharpoonup> int) \<Rightarrow> char \<Rightarrow> error + (char \<rightharpoonup> int)" where
  "bump fr c =
     (let n = (case fr c of None \<Rightarrow> 0 | Some k \<Rightarrow> k)
      in if in_int (n + 1) then Inr (fr(c \<mapsto> n + 1)) else Inl SignedOverflow)"

fun count_loop :: "string \<Rightarrow> (char \<rightharpoonup> int) \<Rightarrow> error + (char \<rightharpoonup> int)" where
  "count_loop [] fr = Inr fr"
| "count_loop (c # text) fr =
     (case bump fr c of
        Inl e \<Rightarrow> Inl e
      | Inr fr' \<Rightarrow> count_loop text fr')"

text \<open>
  \<open>for (auto& pair : freq)\<close> visits every entry of the \<open>unordered_map\<close> once, in an order
  the language leaves open: any duplicate-free listing of the entries.
\<close>

definition iterates :: "(char \<rightharpoonup> int) \<Rightarrow> (char \<times> int) list \<Rightarrow> bool" where
  "iterates fr kvs = (distinct (map fst kvs) \<and> map_of kvs = fr)"

subsection \<open>The priority queue\<close>

text \<open>
  A \<open>std::priority_queue<Node*, vector<Node*>, Compare>\<close> is modelled by the list of
  its elements. \<open>top()\<close> returns an element that \<open>Compare\<close> orders below no other; which
  one among several is left open. \<open>pop()\<close> removes that element, \<open>push\<close> adds one.
\<close>

definition pq_top :: "node list \<Rightarrow> node \<Rightarrow> bool" where
  "pq_top pq x = (x \<in> set pq \<and> list_all (\<lambda>y. \<not> Compare x y) pq)"

definition pq_pop :: "node \<Rightarrow> node list \<Rightarrow> node list" where
  "pq_pop x pq = remove1 x pq"

definition pq_push :: "node \<Rightarrow> node list \<Rightarrow> node list" where
  "pq_push x pq = x # pq"

fun push_leaves :: "(char \<times> int) list \<Rightarrow> node list \<Rightarrow> node list" where
  "push_leaves [] pq = pq"
| "push_leaves ((c, f) # kvs) pq = push_leaves kvs (pq_push (Node c f None None) pq)"

subsection \<open>The merge loop\<close>

text \<open>
  The body of \<open>while (pq.size() > 1)\<close>: the locals \<open>left\<close> and \<open>right\<close> are \<open>l\<close> and \<open>r\<close>
  here, \<open>merged\<close> is the new node with the null character as symbol, the sum of the two frequencies
  and the two nodes as children. The loop is a relation, since \<open>top()\<close> may return any
  least element; a sum outside the range of \<open>int\<close> ends the run.
\<close>

definition merged :: "node \<Rightarrow> node \<Rightarrow> node" where
  "merged l r = Node (CHR 0x00) (freq l + freq r) (Some l) (Some r)"

inductive build_loop :: "node list \<Rightarrow> error + node list \<Rightarrow> bool" where
  finished: "\<not> 1 < length pq \<Longrightarrow> build_loop pq (Inr pq)"
| overflow: "1 < length pq \<Longrightarrow> pq_top pq l \<Longrightarrow> pq_top (pq_pop l pq) r \<Longrightarrow>
     \<not> in_int (freq l + freq r) \<Longrightarrow> build_loop pq (Inl SignedOverflow)"
| merge: "1 < length pq \<Longrightarrow> pq_top pq l \<Longrightarrow> pq_top (pq_pop l pq) r \<Longrightarrow>
     in_int (freq l + freq r) \<Longrightarrow>
     build_loop (pq_push (merged l r) (pq_pop r (pq_pop l pq))) res \<Longrightarrow> build_loop pq res"

text \<open>
  Lines 101 to 129: the frequency count, the leaves, the merge loop and
  \<open>Node* root = pq.top()\<close>. \<open>top()\<close> of an empty queue is undefined behaviour.
\<close>

inductive build_tree :: "string \<Rightarrow> error + node \<Rightarrow> bool" where
  count_fails: "count_loop text Map.empty = Inl e \<Longrightarrow> build_tree text (Inl e)"
| loop_fails: "count_loop text Map.empty = Inr fr \<Longrightarrow> iterates fr kvs \<Longrightarrow>
     build_loop (push_leaves kvs []) (Inl e) \<Longrightarrow> build_tree text (Inl e)"
| top_of_empty: "count_loop text Map.empty = Inr fr \<Longrightarrow> iterates fr kvs \<Longrightarrow>
     build_loop (push_leaves kvs []) (Inr []) \<Longrightarrow> build_tree text (Inl EmptyQueueTop)"
| top: "count_loop text Map.empty = Inr fr \<Longrightarrow> iterates fr kvs \<Longrightarrow>
     build_loop (push_leaves kvs []) (Inr pq) \<Longrightarrow> pq_top pq r \<Longrightarrow> build_tree text (Inr r)"

subsection \<open>Code table, encoding and decoding\<close>

record outcome =
  root :: node
  codes :: "char \<rightharpoonup> string"
  encoded :: string
  decoded :: string

text \<open>Lines 131 to 147, for the root the builder returned.\<close>

definition codec :: "string \<Rightarrow> node \<Rightarrow> error + outcome" where
  "codec text r =
     (let cs = buildCodes (Some r) [] Map.empty in
      case encode text cs of
        Inl e \<Rightarrow> Inl e
      | Inr enc \<Rightarrow>
          (case decode enc (Some r) of
             Inl e \<Rightarrow> Inl e
           | Inr dec \<Rightarrow> Inr \<lparr>root = r, codes = cs, encoded = enc, decoded = dec\<rparr>))"

inductive main_run :: "string \<Rightarrow> error + outcome \<Rightarrow> bool" where
  no_tree: "build_tree text (Inl e) \<Longrightarrow> main_run text (Inl e)"
| with_tree: "build_tree text (Inr r) \<Longrightarrow> main_run text (codec text r)"

section \<open>Notions used in the statements\<close>

subsection \<open>Trees\<close>

text \<open>
  \<open>strict\<close>: every node has either no child or two non-null children.
\<close>

fun strict :: "node \<Rightarrow> bool" where
  "strict (Node c f None None) = True"
| "strict (Node c f (Some l) (Some r)) = (strict l \<and> strict r)"
| "strict (Node c f _ _) = False"

text \<open>
  \<open>well_formed\<close>: the tree is strict and the frequency of every internal node is the sum
  of the frequencies of its two children.
\<close>

fun well_formed :: "node \<Rightarrow> bool" where
  "well_formed (Node c f None None) = True"
| "well_formed (Node c f (Some l) (Some r)) = (f = freq l + freq r \<and> well_formed l \<and> well_formed r)"
| "well_formed (Node c f _ _) = False"

text \<open>
  \<open>leaves\<close>: the symbol and frequency of every leaf (a node without children), from left
  to right.
\<close>

fun leaves :: "node \<Rightarrow> (char \<times> int) list" where
  "leaves (Node c f l r) =
     (if l = None \<and> r = None then [(c, f)]
      else (case l of None \<Rightarrow> [] | Some x \<Rightarrow> leaves x) @ (case r of None \<Rightarrow> [] | Some y \<Rightarrow> leaves y))"

text \<open>
  \<open>paths\<close>: the entries \<open>buildCodes\<close> writes, in the order in which it writes them: for
  every leaf its symbol and the path to it, \<open>0\<close> for a left and \<open>1\<close> for a right edge,
  after the prefix \<open>code\<close>.
\<close>

fun paths :: "node option \<Rightarrow> string \<Rightarrow> (char \<times> string) list" where
  "paths None code = []"
| "paths (Some (Node c f l r)) code =
     (if l = None \<and> r = None then [(c, code)]
      else paths l (code @ ''0'') @ paths r (code @ ''1''))"

definition incomparable :: "string \<Rightarrow> string \<Rightarrow> bool" where
  "incomparable x y = (\<not> prefix x y \<and> \<not> prefix y x)"

text \<open>The leaves of all trees in the queue, as a multiset.\<close>

definition forest_leaves :: "node list \<Rightarrow> (char \<times> int) multiset" where
  "forest_leaves pq = (\<Sum>u\<in>#mset pq. mset (leaves u))"

text \<open>
  \<open>icost\<close>: the sum of the frequencies of the internal nodes. For a well-formed tree this
  is the sum over the leaves of frequency times depth.
\<close>

fun icost :: "node \<Rightarrow> int" where
  "icost (Node c f l r) =
     (if l = None \<and> r = None then 0
      else f + (case l of None \<Rightarrow> 0 | Some x \<Rightarrow> icost x) + (case r of None \<Rightarrow> 0 | Some y \<Rightarrow> icost y))"

subsection \<open>Streams\<close>

text \<open>\<open>bitchar\<close>: how \<open>decode\<close> reads a character: \<open>0\<close> is \<open>0\<close>, anything else is \<open>1\<close>.\<close>

definition bitchar :: "char \<Rightarrow> char" where
  "bitchar c = (if c = CHR ''0'' then CHR ''0'' else CHR ''1'')"

subsection \<open>Code tables and weighted length\<close>

text \<open>
  \<open>weighted_length\<close>: the sum over the distinct symbols of the text of the number of
  occurrences times the length of the symbol's code.
\<close>

definition weighted_length :: "string \<Rightarrow> (char \<rightharpoonup> string) \<Rightarrow> int" where
  "weighted_length text cs = (\<Sum>c\<in>set text. int (count_list text c) * int (length (the (cs c))))"

text \<open>
  \<open>binary_prefix_code\<close>: the table has a code for every symbol of the text, the codes are
  strings of \<open>0\<close> and \<open>1\<close>, and the code of a symbol is not a prefix of the code of a
  different symbol. The empty string is allowed as a code.
\<close>

definition binary_prefix_code :: "string \<Rightarrow> (char \<rightharpoonup> string) \<Rightarrow> bool" where
  "binary_prefix_code text cs =
     (set text \<subseteq> dom cs \<and>
      (\<forall>a. a \<in> set text \<longrightarrow> set (the (cs a)) \<subseteq> {CHR ''0'', CHR ''1''}) \<and>
      (\<forall>a b. a \<in> set text \<and> b \<in> set text \<and> a \<noteq> b \<longrightarrow> \<not> prefix (the (cs a)) (the (cs b))))"

text \<open>
  For the comparison with other codes, a code is a multiset of pairs of a weight and a
  codeword of bits: \<open>bits\<close> turns a string of \<open>0\<close> and \<open>1\<close> into bits, \<open>pfree\<close> says that no
  codeword is a prefix of another one (an equal one included), \<open>wcost\<close> is the weighted
  length and \<open>total_length\<close> the sum of the codeword lengths.
\<close>

definition bits :: "string \<Rightarrow> bool list" where
  "bits s = map (\<lambda>b. b = CHR ''1'') s"

definition pfree :: "bool list multiset \<Rightarrow> bool" where
  "pfree X = (\<forall>x y. x \<in># X \<longrightarrow> y \<in># X - {#x#} \<longrightarrow> \<not> prefix x y)"

definition wcost :: "(int \<times> bool list) multiset \<Rightarrow> int" where
  "wcost C = (\<Sum>(w, x)\<in>#C. w * int (length x))"

definition total_length :: "(int \<times> bool list) multiset \<Rightarrow> nat" where
  "total_length C = (\<Sum>(w, x)\<in>#C. length x)"

subsection \<open>Concrete trees and runs\<close>

text \<open>
  Trees the builder can return for the texts \<open>ab\<close>, \<open>abc\<close> and \<open>abracadabra\<close>, the run on
  \<open>abracadabra\<close> through the last of them, and a three-bit code for its five symbols.
\<close>

definition tree_ab :: node where
  "tree_ab = Node (CHR 0x00) 2 (Some (Node (CHR ''a'') 1 None None)) (Some (Node (CHR ''b'') 1 None None))"

definition tree_abc :: node where
  "tree_abc = Node (CHR 0x00) 3 (Some (Node (CHR ''c'') 1 None None)) (Some tree_ab)"

definition tree_abracadabra :: node where
  "tree_abracadabra =
     Node (CHR 0x00) 11 (Some (Node (CHR ''a'') 5 None None))
       (Some (Node (CHR 0x00) 6
          (Some (Node (CHR 0x00) 2 (Some (Node (CHR ''c'') 1 None None)) (Some (Node (CHR ''d'') 1 None None))))
          (Some (Node (CHR 0x00) 4 (Some (Node (CHR ''b'') 2 None None)) (Some (Node (CHR ''r'') 2 None None))))))"

definition run_abracadabra :: outcome where
  "run_abracadabra =
     \<lparr>root = tree_abracadabra,
      codes = [CHR ''a'' \<mapsto> ''0'', CHR ''c'' \<mapsto> ''100'', CHR ''d'' \<mapsto> ''101'',
               CHR ''b'' \<mapsto> ''110'', CHR ''r'' \<mapsto> ''111''],
      encoded = ''01101110100010101101110'', decoded = ''abracadabra''\<rparr>"

definition fixed_width_code :: "char \<rightharpoonup> string" where
  "fixed_width_code = [CHR ''a'' \<mapsto> ''000'', CHR ''b'' \<mapsto> ''001'', CHR ''r'' \<mapsto> ''010'',
     CHR ''c'' \<mapsto> ''011'', CHR ''d'' \<mapsto> ''100'']"

section \<open>Properties of trees and code tables\<close>

lemma decode_loop_bitchar:
  "decode_loop (map bitchar s) rt cur res = decode_loop s rt cur res"
  by (induction s rt cur res rule: decode_loop.induct)
     (auto simp: bitchar_def split: option.splits)

lemma decode_loop_append:
  "decode_loop s1 rt cur res = Inr (res', cur') \<Longrightarrow>
   decode_loop (s1 @ s2) rt cur res = decode_loop s2 rt cur' res'"
  by (induction s1 rt cur res rule: decode_loop.induct)
     (auto split: option.splits if_splits)

lemma buildCodes_paths:
  "buildCodes t code m = m ++ map_of (rev (paths t code))"
  by (induction t code m rule: buildCodes.induct) auto

lemma paths_shift:
  "paths t (pre @ code) = map (\<lambda>(c, p). (c, pre @ p)) (paths t code)"
  by (induction t code arbitrary: pre rule: paths.induct) auto

lemma paths_prefix: "(c, p) \<in> set (paths t code) \<Longrightarrow> prefix code p"
proof (induction t code rule: paths.induct)
  case (2 c' f l r code)
  then show ?case
    by (auto split: if_splits dest: append_prefixD)
qed simp

lemma incomparable_branches:
  "prefix (code @ ''0'') x \<Longrightarrow> prefix (code @ ''1'') y \<Longrightarrow> incomparable x y"
  unfolding incomparable_def prefix_def by (auto simp: append_eq_append_conv2 Cons_eq_append_conv)

lemma paths_incomparable:
  "sorted_wrt incomparable (map snd (paths t code))"
proof (induction t code rule: paths.induct)
  case (2 c f l r code)
  show ?case
  proof (cases "l = None \<and> r = None")
    case False
    have "incomparable x y" if "x \<in> snd ` set (paths l (code @ ''0''))"
      and "y \<in> snd ` set (paths r (code @ ''1''))" for x y
      using that by (auto intro!: incomparable_branches dest: paths_prefix)
    with 2 False show ?thesis by (simp add: sorted_wrt_append)
  qed simp
qed simp

lemma sorted_wrt_incomparable_distinct:
  "sorted_wrt incomparable xs \<Longrightarrow> distinct xs"
  by (induction xs) (auto simp: incomparable_def)

lemma sorted_wrt_incomparable_set:
  "sorted_wrt incomparable xs \<Longrightarrow> x \<in> set xs \<Longrightarrow> y \<in> set xs \<Longrightarrow> x \<noteq> y \<Longrightarrow> \<not> prefix x y"
  by (induction xs) (auto simp: incomparable_def)

lemma paths_chars: "(c, p) \<in> set (paths t code) \<Longrightarrow> set p \<subseteq> set code \<union> {CHR ''0'', CHR ''1''}"
  by (induction t code rule: paths.induct) (auto split: if_splits)

lemma paths_nonempty:
  "(c, p) \<in> set (paths (Some t) code) \<Longrightarrow> \<not> is_leaf t \<Longrightarrow> p \<noteq> code"
  by (cases t) (auto simp: is_leaf_def dest!: paths_prefix)

lemma decode_path:
  "strict cur \<Longrightarrow> \<not> is_leaf cur \<Longrightarrow> (c, p) \<in> set (paths (Some cur) []) \<Longrightarrow>
   decode_loop (p @ rest) rt (Some cur) res = decode_loop rest rt rt (res @ [c])"
proof (induction cur arbitrary: p rule: strict.induct)
  case (2 c' f l r)
  have sh: "paths (Some l) ''0'' = map (\<lambda>(c, p). (c, ''0'' @ p)) (paths (Some l) [])"
    "paths (Some r) ''1'' = map (\<lambda>(c, p). (c, ''1'' @ p)) (paths (Some r) [])"
    using paths_shift[of "Some l" "''0''" "[]"] paths_shift[of "Some r" "''1''" "[]"] by simp_all
  from "2.prems" consider (L) p' where "p = CHR ''0'' # p'" "(c, p') \<in> set (paths (Some l) [])"
    | (R) p' where "p = CHR ''1'' # p'" "(c, p') \<in> set (paths (Some r) [])"
    by (auto simp: sh)
  then show ?case
  proof cases
    case L
    show ?thesis
    proof (cases "is_leaf l")
      case True
      with L show ?thesis by (cases l) (auto simp: is_leaf_def)
    next
      case False
      with L "2.prems" "2.IH"(1)[of p'] show ?thesis by (auto simp: is_leaf_def)
    qed
  next
    case R
    show ?thesis
    proof (cases "is_leaf r")
      case True
      with R show ?thesis by (cases r) (auto simp: is_leaf_def)
    next
      case False
      with R "2.prems" "2.IH"(2)[of p'] show ?thesis by (auto simp: is_leaf_def)
    qed
  qed
qed (auto simp: is_leaf_def)

lemma encode_loop_concat:
  "encode_loop text cs res =
     (if set text \<subseteq> dom cs then Inr (res @ concat (map (\<lambda>c. the (cs c)) text)) else Inl OutOfRange)"
  by (induction "text" arbitrary: res) (auto split: option.splits)

lemma decode_concat:
  assumes "strict t" "\<not> is_leaf t"
    and "\<And>c. c \<in> set text \<Longrightarrow> (c, code c) \<in> set (paths (Some t) [])"
  shows "decode_loop (concat (map code text)) (Some t) (Some t) res = Inr (res @ text, Some t)"
  using assms(3)
proof (induction "text" arbitrary: res)
  case (Cons c cs)
  then show ?case using decode_path[OF assms(1,2), of c "code c"] by simp
qed simp

lemma well_formed_strict: "well_formed t \<Longrightarrow> strict t"
  by (induction t rule: strict.induct) auto

lemma leaves_nonempty: "strict t \<Longrightarrow> leaves t \<noteq> []"
  by (induction t rule: strict.induct) auto

lemma leaves_two: "strict t \<Longrightarrow> \<not> is_leaf t \<Longrightarrow> 2 \<le> length (leaves t)"
proof (induction t rule: strict.induct)
  case (2 c f l r)
  from "2.prems" have "strict l" "strict r" by simp_all
  then have "leaves l \<noteq> []" "leaves r \<noteq> []" using leaves_nonempty by blast+
  then have "1 \<le> length (leaves l)" "1 \<le> length (leaves r)"
    by (simp_all add: Suc_leI)
  then show ?case by simp
qed (auto simp: is_leaf_def)

lemma paths_leaves: "map fst (paths (Some t) code) = map fst (leaves t)"
proof (induction t arbitrary: code rule: leaves.induct)
  case (1 c f l r)
  show ?case
  proof (cases l; cases r)
    fix x y assume "l = Some x" "r = Some y"
    with 1 show ?thesis by simp
  next
    fix x assume "l = Some x" "r = None"
    with 1 show ?thesis by simp
  next
    fix y assume "l = None" "r = Some y"
    with 1 show ?thesis by simp
  qed simp
qed

lemma forest_leaves_simps [simp]:
  "forest_leaves [] = {#}"
  "forest_leaves (u # pq) = mset (leaves u) + forest_leaves pq"
  by (simp_all add: forest_leaves_def)

lemma forest_leaves_remove1:
  "u \<in> set pq \<Longrightarrow> mset (leaves u) + forest_leaves (remove1 u pq) = forest_leaves pq"
  by (induction pq) (auto simp: ac_simps)

lemma forest_leaves_merge:
  assumes "l \<in> set pq" "r \<in> set (remove1 l pq)"
  shows "forest_leaves (merged l r # remove1 r (remove1 l pq)) = forest_leaves pq"
proof -
  have "leaves (merged l r) = leaves l @ leaves r" by (simp add: merged_def)
  then show ?thesis
    using forest_leaves_remove1[OF assms(2)] forest_leaves_remove1[OF assms(1)]
    by (simp add: ac_simps)
qed

lemma pq_topD: "pq_top pq x \<Longrightarrow> x \<in> set pq"
  by (simp add: pq_top_def)

lemma pq_top_least: "pq_top pq x \<Longrightarrow> y \<in> set pq \<Longrightarrow> freq x \<le> freq y"
  by (auto simp: pq_top_def Compare_def list_all_iff)

lemma build_loop_invariants:
  assumes "build_loop pq res" "res = Inr pq'"
  shows "forest_leaves pq' = forest_leaves pq"
    and "list_all well_formed pq \<Longrightarrow> list_all well_formed pq'"
    and "length pq' \<le> 1" and "pq \<noteq> [] \<Longrightarrow> pq' \<noteq> []"
  using assms
proof (induction pq res rule: build_loop.induct)
  case (merge pq l r res)
  let ?pq = "pq_push (merged l r) (pq_pop r (pq_pop l pq))"
  have l: "l \<in> set pq" and r: "r \<in> set (remove1 l pq)"
    using merge.hyps(2,3) by (auto dest: pq_topD simp: pq_pop_def)
  { case 1 with merge.IH(1) forest_leaves_merge[OF l r] show ?case
      by (simp add: pq_push_def pq_pop_def) }
  { case 2
    have "r \<in> set pq" using r by (meson notin_set_remove1)
    with 2 l have "well_formed (merged l r)" by (auto simp: merged_def list_all_iff)
    moreover have "list_all well_formed (remove1 r (remove1 l pq))"
      using 2 by (auto simp: list_all_iff dest: notin_set_remove1)
    ultimately show ?case using merge.IH(2) 2 by (simp add: pq_push_def pq_pop_def) }
  { case 3 with merge.IH(3) show ?case by simp }
  { case 4 with merge.IH(4) show ?case by (simp add: pq_push_def) }
qed auto

lemma push_leaves_eq:
  "push_leaves kvs pq = rev (map (\<lambda>(c, f). Node c f None None) kvs) @ pq"
  by (induction kvs pq rule: push_leaves.induct) (auto simp: pq_push_def)

lemma forest_leaves_append: "forest_leaves (xs @ ys) = forest_leaves xs + forest_leaves ys"
  by (simp add: forest_leaves_def)

lemma forest_leaves_initial: "forest_leaves (push_leaves kvs []) = mset kvs"
  by (induction kvs rule: rev_induct) (auto simp: push_leaves_eq forest_leaves_append)

lemma well_formed_initial: "list_all well_formed (push_leaves kvs [])"
  by (auto simp: push_leaves_eq list_all_iff)

lemma count_loop_result:
  "count_loop text fr = Inr fr' \<Longrightarrow>
   fr' c = (if c \<in> set text then Some ((case fr c of None \<Rightarrow> 0 | Some k \<Rightarrow> k) + int (count_list text c))
            else fr c)"
proof (induction "text" arbitrary: fr)
  case (Cons a as)
  from Cons.prems obtain fr1 where b: "bump fr a = Inr fr1" and c: "count_loop as fr1 = Inr fr'"
    by (auto split: sum.splits)
  from b have fr1: "fr1 = fr(a \<mapsto> (case fr a of None \<Rightarrow> 0 | Some k \<Rightarrow> k) + 1)"
    by (auto simp: bump_def Let_def split: if_splits)
  show ?case using Cons.IH[OF c] by (auto simp: fr1)
qed simp

lemma count_loop_empty:
  assumes "count_loop text Map.empty = Inr fr"
  shows "fr c = (if c \<in> set text then Some (int (count_list text c)) else None)"
  using count_loop_result[OF assms, of c] by simp

lemma count_loop_dom: "count_loop text Map.empty = Inr fr \<Longrightarrow> dom fr = set text"
  by (auto simp: count_loop_empty dom_def)

lemma iterates_length: "iterates fr kvs \<Longrightarrow> length kvs = card (dom fr)"
  unfolding iterates_def
  by (metis distinct_card dom_map_of_conv_image_fst length_map list.set_map)

text \<open>What a successful run of the tree builder establishes.\<close>

lemma build_tree_facts:
  assumes "build_tree text (Inr t)"
  obtains fr kvs where "count_loop text Map.empty = Inr fr" "iterates fr kvs"
    "mset (leaves t) = mset kvs" "well_formed t"
  using assms
proof (cases rule: build_tree.cases)
  case (top fr kvs pq)
  note inv = build_loop_invariants[OF top(3) refl]
  from inv(3) top(4) have pq: "pq = [t]" by (cases pq) (auto dest: pq_topD)
  from inv(1) pq have "mset (leaves t) = mset kvs" by (simp add: forest_leaves_initial)
  moreover from inv(2) pq have "well_formed t" by (simp add: well_formed_initial)
  ultimately show ?thesis using that top by blast
qed

section \<open>Runs of the program on concrete inputs\<close>

lemma pq_top_singleton: "pq_top [x] y \<longleftrightarrow> y = x"
  by (auto simp: pq_top_def Compare_def)

lemma pq_top_Nil: "\<not> pq_top [] x"
  by (simp add: pq_top_def)

lemma build_loop_short: "length pq \<le> 1 \<Longrightarrow> build_loop pq res \<longleftrightarrow> res = Inr pq"
  by (auto elim: build_loop.cases intro: build_loop.finished)

lemma iterates_set: "iterates fr kvs \<Longrightarrow> (c, f) \<in> set kvs \<longleftrightarrow> fr c = Some f"
  by (auto simp: iterates_def)

lemma iterates_empty: "iterates Map.empty kvs \<longleftrightarrow> kvs = []"
  by (cases kvs) (auto simp: iterates_def)

lemma distinct_set_single:
  assumes "distinct xs" "set xs = {x}"
  shows "xs = [x]"
proof (cases xs)
  case Nil
  with assms show ?thesis by simp
next
  case (Cons y ys)
  with assms have "y = x" "set ys \<subseteq> {x}" "y \<notin> set ys" by auto
  then have "z \<notin> set ys" for z by (cases "z = x") auto
  then have "ys = []" by (cases ys) auto
  with Cons \<open>y = x\<close> show ?thesis by simp
qed

lemma iterates_single: "iterates [c \<mapsto> f] kvs \<longleftrightarrow> kvs = [(c, f)]"
proof
  assume it: "iterates [c \<mapsto> f] kvs"
  then have "set kvs = {(c, f)}" by (auto simp: iterates_set split: if_splits)
  moreover from it have "distinct kvs" by (auto simp: iterates_def distinct_map)
  ultimately show "kvs = [(c, f)]" by (rule distinct_set_single[rotated])
qed (simp add: iterates_def)

lemma count_loop_aaaa: "count_loop ''aaaa'' Map.empty = Inr [CHR ''a'' \<mapsto> 4]"
  by (simp add: bump_def in_int_def INT_MAX_def INT_MIN_def)

lemma build_tree_empty: "build_tree [] res \<longleftrightarrow> res = Inl EmptyQueueTop"
proof
  assume "build_tree [] res"
  then show "res = Inl EmptyQueueTop"
    by (cases rule: build_tree.cases)
       (auto simp: iterates_empty build_loop_short pq_top_Nil)
next
  assume "res = Inl EmptyQueueTop"
  moreover have "build_tree [] (Inl EmptyQueueTop)"
    by (rule build_tree.top_of_empty[where fr = Map.empty and kvs = "[]"])
       (simp_all add: iterates_empty build_loop_short)
  ultimately show "build_tree [] res" by simp
qed

lemma build_tree_single:
  assumes "count_loop text Map.empty = Inr [c \<mapsto> f]"
  shows "build_tree text res \<longleftrightarrow> res = Inr (Node c f None None)"
proof
  assume "build_tree text res"
  then show "res = Inr (Node c f None None)"
    by (cases rule: build_tree.cases)
       (auto simp: assms iterates_single build_loop_short pq_top_singleton pq_push_def)
next
  assume "res = Inr (Node c f None None)"
  moreover have "build_tree text (Inr (Node c f None None))"
    by (rule build_tree.top[where fr = "[c \<mapsto> f]" and kvs = "[(c, f)]"
          and pq = "[Node c f None None]"])
       (simp_all add: assms iterates_single build_loop_short pq_top_singleton pq_push_def)
  ultimately show "build_tree text res" by simp
qed

lemmas build_tree_aaaa = build_tree_single[OF count_loop_aaaa]

lemma main_run_iff:
  "main_run text res \<longleftrightarrow>
     (\<exists>r. build_tree text r \<and> res = (case r of Inl e \<Rightarrow> Inl e | Inr t \<Rightarrow> codec text t))"
proof
  assume "main_run text res"
  then show "\<exists>r. build_tree text r \<and> res = (case r of Inl e \<Rightarrow> Inl e | Inr t \<Rightarrow> codec text t)"
  proof (cases rule: main_run.cases)
    case (no_tree e)
    then show ?thesis by (intro exI[of _ "Inl e"]) simp
  next
    case (with_tree r)
    then show ?thesis by (intro exI[of _ "Inr r"]) simp
  qed
next
  assume "\<exists>r. build_tree text r \<and> res = (case r of Inl e \<Rightarrow> Inl e | Inr t \<Rightarrow> codec text t)"
  then obtain r where r: "build_tree text r"
    and res: "res = (case r of Inl e \<Rightarrow> Inl e | Inr t \<Rightarrow> codec text t)" by blast
  show "main_run text res"
  proof (cases r)
    case (Inl e)
    with r res show ?thesis by (simp add: main_run.no_tree)
  next
    case (Inr t)
    with r res show ?thesis by (simp add: main_run.with_tree)
  qed
qed

lemma count_loop_total:
  assumes "int (length text) \<le> INT_MAX"
    and "\<And>c k. fr c = Some k \<Longrightarrow> 0 \<le> k \<and> k + int (length text) \<le> INT_MAX"
  shows "\<exists>fr'. count_loop text fr = Inr fr'"
  using assms
proof (induction "text" arbitrary: fr)
  case (Cons a as)
  let ?n = "case fr a of None \<Rightarrow> 0 | Some k \<Rightarrow> k"
  have n: "0 \<le> ?n \<and> ?n + int (length (a # as)) \<le> INT_MAX"
    using Cons.prems by (cases "fr a") auto
  then have "in_int (?n + 1)" by (auto simp: in_int_def INT_MIN_def)
  then have b: "bump fr a = Inr (fr(a \<mapsto> ?n + 1))" by (simp add: bump_def)
  have "\<exists>fr'. count_loop as (fr(a \<mapsto> ?n + 1)) = Inr fr'"
  proof (rule Cons.IH)
    show "int (length as) \<le> INT_MAX" using Cons.prems(1) by simp
    fix c k assume "(fr(a \<mapsto> ?n + 1)) c = Some k"
    then show "0 \<le> k \<and> k + int (length as) \<le> INT_MAX"
      using n Cons.prems(2)[of c k] by (auto split: if_splits)
  qed
  with b show ?case by simp
qed simp

lemma build_tree_intro:
  assumes "int (length text) \<le> INT_MAX"
    and "distinct (map fst kvs)"
    and "\<And>c. map_of kvs c = (if c \<in> set text then Some (int (count_list text c)) else None)"
    and "build_loop (push_leaves kvs []) (Inr [t])"
  shows "build_tree text (Inr t)"
proof -
  from count_loop_total[OF assms(1), of Map.empty]
  obtain fr where fr: "count_loop text Map.empty = Inr fr" by auto
  have "map_of kvs = fr" using assms(3) count_loop_empty[OF fr] by (intro ext) simp
  with assms(2) have "iterates fr kvs" by (simp add: iterates_def)
  from build_tree.top[OF fr this assms(4)] show ?thesis by (simp add: pq_top_singleton)
qed

lemma build_tree_ab:
  "build_tree ''ab''
     (Inr (Node (CHR 0x00) 2 (Some (Node (CHR ''a'') 1 None None)) (Some (Node (CHR ''b'') 1 None None))))"
proof (rule build_tree_intro[where kvs = "[(CHR ''b'', 1), (CHR ''a'', 1)]"])
  show "build_loop (push_leaves [(CHR ''b'', 1), (CHR ''a'', 1)] [])
     (Inr [Node (CHR 0x00) 2 (Some (Node (CHR ''a'') 1 None None)) (Some (Node (CHR ''b'') 1 None None))])"
    apply (rule build_loop.merge[where l = "Node (CHR ''a'') 1 None None" and r = "Node (CHR ''b'') 1 None None"])
        apply (simp_all add: pq_push_def pq_pop_def pq_top_def Compare_def in_int_def INT_MAX_def INT_MIN_def merged_def)
    apply (rule build_loop.finished)
    apply simp
    done
qed (auto simp: INT_MAX_def)

lemma build_tree_abc:
  "build_tree ''abc''
     (Inr (Node (CHR 0x00) 3 (Some (Node (CHR ''c'') 1 None None))
        (Some (Node (CHR 0x00) 2 (Some (Node (CHR ''a'') 1 None None)) (Some (Node (CHR ''b'') 1 None None))))))"
proof (rule build_tree_intro[where kvs = "[(CHR ''c'', 1), (CHR ''b'', 1), (CHR ''a'', 1)]"])
  show "build_loop (push_leaves [(CHR ''c'', 1), (CHR ''b'', 1), (CHR ''a'', 1)] [])
     (Inr [Node (CHR 0x00) 3 (Some (Node (CHR ''c'') 1 None None))
        (Some (Node (CHR 0x00) 2 (Some (Node (CHR ''a'') 1 None None)) (Some (Node (CHR ''b'') 1 None None))))])"
    apply (rule build_loop.merge[where l = "Node (CHR ''a'') 1 None None" and r = "Node (CHR ''b'') 1 None None"])
        apply (simp_all add: pq_push_def pq_pop_def pq_top_def Compare_def in_int_def INT_MAX_def INT_MIN_def merged_def)
    apply (rule build_loop.merge[where l = "Node (CHR ''c'') 1 None None"
          and r = "Node (CHR 0x00) 2 (Some (Node (CHR ''a'') 1 None None)) (Some (Node (CHR ''b'') 1 None None))"])
        apply (simp_all add: pq_push_def pq_pop_def pq_top_def Compare_def in_int_def INT_MAX_def INT_MIN_def merged_def)
    apply (rule build_loop.finished)
    apply simp
    done
qed (auto simp: INT_MAX_def)

section \<open>Facts about every run\<close>

lemma codec_InrD:
  assumes "codec text r = Inr out"
  shows "root out = r" "codes out = buildCodes (Some r) [] Map.empty"
    "encode text (codes out) = Inr (encoded out)"
    "decode (encoded out) (Some r) = Inr (decoded out)"
  using assms by (auto simp: codec_def Let_def split: sum.splits)

lemma main_run_InrD:
  assumes "main_run text (Inr out)"
  shows "build_tree text (Inr (root out))"
    "codes out = buildCodes (Some (root out)) [] Map.empty"
    "encode text (codes out) = Inr (encoded out)"
    "decode (encoded out) (Some (root out)) = Inr (decoded out)"
proof -
  from assms obtain r where r: "build_tree text (Inr r)" "codec text r = Inr out"
    by (cases rule: main_run.cases) auto
  from codec_InrD[OF r(2)] r(1)
  show "build_tree text (Inr (root out))"
    "codes out = buildCodes (Some (root out)) [] Map.empty"
    "encode text (codes out) = Inr (encoded out)"
    "decode (encoded out) (Some (root out)) = Inr (decoded out)" by simp_all
qed

lemma buildCodes_SomeD:
  "buildCodes t [] Map.empty c = Some p \<Longrightarrow> (c, p) \<in> set (paths t [])"
  by (auto simp: buildCodes_paths dest: map_of_SomeD)

lemma buildCodes_prefix_free:
  assumes "buildCodes t [] Map.empty a = Some ca" "buildCodes t [] Map.empty b = Some cb" "a \<noteq> b"
  shows "\<not> prefix ca cb"
proof -
  have "ca \<in> set (map snd (paths t []))" "cb \<in> set (map snd (paths t []))"
    using assms(1,2)[THEN buildCodes_SomeD] by force+
  moreover have "ca \<noteq> cb"
  proof
    assume "ca = cb"
    have d: "distinct (map snd (paths t []))"
      by (rule sorted_wrt_incomparable_distinct[OF paths_incomparable])
    from assms(1,2)[THEN buildCodes_SomeD] \<open>ca = cb\<close>
    have in_paths: "(a, ca) \<in> set (paths t [])" "(b, ca) \<in> set (paths t [])" by simp_all
    from d have "inj_on snd (set (paths t []))" by (simp add: distinct_map)
    from inj_onD[OF this _ in_paths] have "a = b" by simp
    with assms(3) show False by simp
  qed
  ultimately show ?thesis
    by (rule sorted_wrt_incomparable_set[OF paths_incomparable])
qed

lemma build_tree_leaves:
  assumes "build_tree text (Inr t)"
  shows "well_formed t"
    and "set (leaves t) = (\<lambda>c. (c, int (count_list text c))) ` set text"
    and "distinct (map fst (leaves t))"
    and "length (leaves t) = card (set text)"
proof -
  from assms obtain fr kvs where fr: "count_loop text Map.empty = Inr fr"
    and it: "iterates fr kvs" and ms: "mset (leaves t) = mset kvs" and wf: "well_formed t"
    by (rule build_tree_facts)
  show "well_formed t" by (rule wf)
  have "set (leaves t) = set kvs" using ms by (rule mset_eq_setD)
  also have "\<dots> = (\<lambda>c. (c, int (count_list text c))) ` set text"
    using iterates_set[OF it] count_loop_empty[OF fr] by (auto split: if_splits)
  finally show "set (leaves t) = (\<lambda>c. (c, int (count_list text c))) ` set text" .
  have "mset (map fst (leaves t)) = mset (map fst kvs)" using ms by (metis mset_map)
  moreover have "distinct (map fst kvs)" using it by (simp add: iterates_def)
  ultimately show "distinct (map fst (leaves t))" by (metis mset_eq_imp_distinct_iff)
  have "length (leaves t) = length kvs" using ms by (rule mset_eq_length)
  with iterates_length[OF it] count_loop_dom[OF fr]
  show "length (leaves t) = card (set text)" by simp
qed

lemma build_tree_symbols:
  assumes "build_tree text (Inr t)"
  shows "fst ` set (leaves t) = set text"
  using build_tree_leaves(2)[OF assms] by (auto simp: image_image)

lemma build_tree_nonempty: "build_tree text (Inr t) \<Longrightarrow> text \<noteq> []"
  by (auto simp: build_tree_empty)

lemma build_tree_not_leaf:
  assumes "build_tree text (Inr t)" "2 \<le> card (set text)"
  shows "\<not> is_leaf t"
proof
  assume "is_leaf t"
  then have "length (leaves t) = 1" by (cases t) (simp add: is_leaf_def)
  with build_tree_leaves(4)[OF assms(1)] assms(2) show False by simp
qed

lemma build_tree_codes:
  assumes "build_tree text (Inr t)"
  shows "buildCodes (Some t) [] Map.empty c = Some p \<longleftrightarrow> (c, p) \<in> set (paths (Some t) [])"
proof -
  have "distinct (map fst (paths (Some t) []))"
    using build_tree_leaves(3)[OF assms] by (simp add: paths_leaves)
  then have "distinct (map fst (rev (paths (Some t) [])))" by (simp add: rev_map[symmetric])
  then show ?thesis by (simp add: buildCodes_paths)
qed

lemma build_tree_codes_dom:
  assumes "build_tree text (Inr t)"
  shows "dom (buildCodes (Some t) [] Map.empty) = set text"
proof -
  have "dom (buildCodes (Some t) [] Map.empty) = fst ` set (paths (Some t) [])"
    by (simp add: buildCodes_paths dom_map_of_conv_image_fst)
  also have "\<dots> = set (map fst (paths (Some t) []))" by simp
  also have "\<dots> = set text"
    unfolding paths_leaves using build_tree_symbols[OF assms] by simp
  finally show ?thesis .
qed

lemma strict_child:
  "strict c \<Longrightarrow> \<not> is_leaf c \<Longrightarrow> \<exists>l r. left c = Some l \<and> right c = Some r \<and> strict l \<and> strict r"
  by (induction c rule: strict.induct) (auto simp: is_leaf_def)

lemma decode_loop_no_error:
  assumes "strict rt" "\<not> is_leaf rt"
  shows "strict c \<Longrightarrow> \<not> is_leaf c \<Longrightarrow>
    \<exists>out c'. decode_loop s (Some rt) (Some c) res = Inr (out, Some c') \<and> strict c' \<and> \<not> is_leaf c'"
proof (induction s arbitrary: c res)
  case Nil
  then show ?case by simp
next
  case (Cons b s)
  from strict_child[OF Cons.prems] obtain l r where
    ch: "left c = Some l" "right c = Some r" "strict l" "strict r" by blast
  define n where "n = (if b = CHR ''0'' then l else r)"
  have n: "(if b = CHR ''0'' then left c else right c) = Some n" "strict n"
    using ch by (auto simp: n_def)
  have step: "decode_loop (b # s) (Some rt) (Some c) res =
      (if is_leaf n then decode_loop s (Some rt) (Some rt) (res @ [ch n])
       else decode_loop s (Some rt) (Some n) res)"
    using n(1) by (simp add: is_leaf_def)
  show ?case
  proof (cases "is_leaf n")
    case True
    with Cons.IH[OF assms, of "res @ [ch n]"] show ?thesis unfolding step by simp
  next
    case False
    with Cons.IH[OF n(2) False, of res] show ?thesis unfolding step by simp
  qed
qed

lemma decode_loop_error_append:
  "decode_loop s1 rt cur res = Inl e \<Longrightarrow> decode_loop (s1 @ s2) rt cur res = Inl e"
  by (induction s1 rt cur res rule: decode_loop.induct)
     (auto split: option.splits if_splits)

lemma decode_loop_Inr_prefix:
  "decode_loop (s1 @ s2) rt cur res = Inr x \<Longrightarrow> \<exists>y. decode_loop s1 rt cur res = Inr y"
proof (cases "decode_loop s1 rt cur res")
  case (Inl e)
  assume "decode_loop (s1 @ s2) rt cur res = Inr x"
  with decode_loop_error_append[OF Inl, of s2] show ?thesis by simp
qed simp

lemma decode_loop_step_result:
  "decode_loop [b] rt cur res = Inr (out, cur') \<Longrightarrow> cur' = rt \<or> out = res"
  by (auto split: option.splits if_splits)

lemma decode_loop_partial_symbol:
  "decode_loop s rt rt res = Inr (out, cur) \<Longrightarrow> cur \<noteq> rt \<Longrightarrow>
   \<exists>s1 s2. s = s1 @ s2 \<and> s2 \<noteq> [] \<and> decode_loop s1 rt rt res = Inr (out, rt)"
proof (induction s arbitrary: out cur rule: rev_induct)
  case Nil
  then show ?case by simp
next
  case (snoc b s)
  from decode_loop_Inr_prefix[OF snoc.prems(1)] obtain out' cur'
    where pre: "decode_loop s rt rt res = Inr (out', cur')" by force
  from decode_loop_append[OF pre, of "[b]"] snoc.prems(1)
  have last: "decode_loop [b] rt cur' out' = Inr (out, cur)" by simp
  have out: "out = out'" using decode_loop_step_result[OF last] snoc.prems(2) by blast
  show ?case
  proof (cases "cur' = rt")
    case True
    with pre out show ?thesis by (intro exI[of _ s] exI[of _ "[b]"]) simp
  next
    case False
    from snoc.IH[OF pre False] obtain s1 s2 where
      "s = s1 @ s2" "s2 \<noteq> []" "decode_loop s1 rt rt res = Inr (out', rt)" by blast
    with out show ?thesis by (intro exI[of _ s1] exI[of _ "s2 @ [b]"]) simp
  qed
qed

lemma build_tree_tree_ab: "build_tree ''ab'' (Inr tree_ab)"
  unfolding tree_ab_def by (rule build_tree_ab)

lemma build_tree_tree_abc: "build_tree ''abc'' (Inr tree_abc)"
  unfolding tree_abc_def tree_ab_def by (rule build_tree_abc)

lemma main_run_ab:
  "main_run ''ab'' (Inr \<lparr>root = tree_ab, codes = [CHR ''a'' \<mapsto> ''0'', CHR ''b'' \<mapsto> ''1''],
      encoded = ''01'', decoded = ''ab''\<rparr>)"
proof -
  have "codec ''ab'' tree_ab = Inr \<lparr>root = tree_ab, codes = [CHR ''a'' \<mapsto> ''0'', CHR ''b'' \<mapsto> ''1''],
      encoded = ''01'', decoded = ''ab''\<rparr>"
    by (simp add: codec_def tree_ab_def encode_def decode_def)
  with main_run.with_tree[OF build_tree_tree_ab] show ?thesis by simp
qed

lemma count_loop_error: "count_loop text fr = Inl e \<Longrightarrow> e = SignedOverflow"
  by (induction "text" arbitrary: fr) (auto simp: bump_def Let_def split: sum.splits if_splits)

lemma build_loop_error: "build_loop pq res \<Longrightarrow> res = Inl e \<Longrightarrow> e = SignedOverflow"
  by (induction pq res rule: build_loop.induct) auto

lemma build_tree_error: "build_tree text (Inl e) \<Longrightarrow> e = SignedOverflow \<or> e = EmptyQueueTop"
  by (cases rule: build_tree.cases) (auto dest: count_loop_error build_loop_error)

lemma decode_loop_error: "decode_loop s rt cur res = Inl e \<Longrightarrow> e = NullDereference"
  by (induction s rt cur res rule: decode_loop.induct) (auto split: option.splits if_splits)

lemma decode_error: "decode s rt = Inl e \<Longrightarrow> e = NullDereference"
  by (cases "decode_loop s rt rt []") (auto simp: decode_def dest: decode_loop_error)

lemma main_run_no_lookup_error: "\<not> main_run text (Inl OutOfRange)"
proof
  assume "main_run text (Inl OutOfRange)"
  then show False
  proof (cases rule: main_run.cases)
    case no_tree
    then show ?thesis by (auto dest: build_tree_error)
  next
    case (with_tree r)
    have "set text \<subseteq> dom (buildCodes (Some r) [] Map.empty)"
      using build_tree_codes_dom[OF with_tree(2)] by simp
    then obtain enc where "encode text (buildCodes (Some r) [] Map.empty) = Inr enc"
      by (simp add: encode_def encode_loop_concat)
    with with_tree(1) show ?thesis
      by (auto simp: codec_def Let_def split: sum.splits dest: decode_error)
  qed
qed

section \<open>Binary prefix codes and their weighted length\<close>

text \<open>
  The exchange lemma turns a prefix-free code whose two least weights are \<open>a\<close> and \<open>b\<close>
  into a prefix-free code for the weights with \<open>a + b\<close> in their place, at a weighted length
  lower by at least \<open>a + b\<close>: a longest codeword loses its last bit while it has no
  sibling; then the two least weights are moved onto a longest codeword and its sibling,
  which are replaced by their common prefix.
\<close>

lemma wcost_add [simp]: "wcost (add_mset (w, x) C) = w * int (length x) + wcost C"
  by (simp add: wcost_def)

lemma wcost_empty [simp]: "wcost {#} = 0"
  by (simp add: wcost_def)

lemma add_mset_minus_single:
  "add_mset z X - {#x#} = (if x = z then X else add_mset z (X - {#x#}))"
proof (cases "x = z")
  case True then show ?thesis by simp
next
  case False
  then show ?thesis using diff_union_swap[of x z X] by simp
qed

lemma pfreeD: "pfree X \<Longrightarrow> x \<in># X \<Longrightarrow> y \<in># X - {#x#} \<Longrightarrow> \<not> prefix x y"
  unfolding pfree_def by blast

lemma pfree_add:
  "pfree (add_mset z X) \<longleftrightarrow> pfree X \<and> (\<forall>u. u \<in># X \<longrightarrow> \<not> prefix z u \<and> \<not> prefix u z)"
proof
  assume pf: "pfree (add_mset z X)"
  have "pfree X"
    unfolding pfree_def
  proof (intro allI impI)
    fix x y assume xy: "x \<in># X" "y \<in># X - {#x#}"
    then have "x \<in># add_mset z X" by simp
    moreover have "y \<in># add_mset z X - {#x#}"
    proof (cases "x = z")
      case True
      with xy(2) have "y \<in># X" by (meson in_diffD)
      with True show ?thesis by simp
    next
      case False
      with xy(2) show ?thesis by (simp add: add_mset_minus_single)
    qed
    ultimately show "\<not> prefix x y" using pf by (rule pfreeD[rotated])
  qed
  moreover have "\<not> prefix z u \<and> \<not> prefix u z" if "u \<in># X" for u
  proof
    have "z \<in># add_mset z X" "u \<in># add_mset z X - {#z#}" using that by simp_all
    then show "\<not> prefix z u" using pf by (rule pfreeD[rotated])
    have "u \<in># add_mset z X" using that by simp
    moreover have "z \<in># add_mset z X - {#u#}"
      using that by (cases "u = z") (simp_all add: add_mset_minus_single)
    ultimately show "\<not> prefix u z" using pf by (rule pfreeD[rotated])
  qed
  ultimately show "pfree X \<and> (\<forall>u. u \<in># X \<longrightarrow> \<not> prefix z u \<and> \<not> prefix u z)" by blast
next
  assume a: "pfree X \<and> (\<forall>u. u \<in># X \<longrightarrow> \<not> prefix z u \<and> \<not> prefix u z)"
  show "pfree (add_mset z X)"
    unfolding pfree_def
  proof (intro allI impI)
    fix x y assume x: "x \<in># add_mset z X" and y: "y \<in># add_mset z X - {#x#}"
    show "\<not> prefix x y"
    proof (cases "x = z")
      case True
      with y have "y \<in># X" by simp
      with a True show ?thesis by blast
    next
      case False
      with x have xX: "x \<in># X" by simp
      from False y have "y \<in># add_mset z (X - {#x#})" by (simp add: add_mset_minus_single)
      then have "y = z \<or> y \<in># X - {#x#}" by simp
      then show ?thesis
      proof
        assume "y = z" with a xX show ?thesis by blast
      next
        assume "y \<in># X - {#x#}" with a xX show ?thesis by (meson pfreeD)
      qed
    qed
  qed
qed

lemma pfree_empty [simp]: "pfree {#}"
  by (simp add: pfree_def)

lemma two_members_split:
  assumes "e1 \<in># C" "e2 \<in># C" "e1 \<noteq> e2"
  obtains C0 where "C = add_mset e1 (add_mset e2 C0)"
proof -
  from assms(1) obtain C1 where C1: "C = add_mset e1 C1" by (meson multi_member_split)
  with assms(2,3) have "e2 \<in># C1" by simp
  then obtain C0 where "C1 = add_mset e2 C0" by (meson multi_member_split)
  with C1 that show thesis by simp
qed

lemma longest_member:
  fixes X :: "'a list multiset"
  assumes "X \<noteq> {#}"
  obtains x where "x \<in># X" "\<And>u. u \<in># X \<Longrightarrow> length u \<le> length x"
proof -
  let ?L = "length ` set_mset X"
  have fin: "finite ?L" and ne: "?L \<noteq> {}" using assms by simp_all
  from Max_in[OF fin ne] obtain x where x: "x \<in># X" "length x = Max ?L" by auto
  have "length u \<le> length x" if "u \<in># X" for u
    using Max_ge[OF fin, of "length u"] that x(2) by simp
  with x(1) that show thesis by blast
qed

lemma place:
  fixes C :: "(int \<times> bool list) multiset"
  assumes "x \<in># image_mset snd C" "a \<in># image_mset fst C"
    and least: "\<And>w. w \<in># image_mset fst C \<Longrightarrow> a \<le> w"
    and longest: "\<And>u. u \<in># image_mset snd C \<Longrightarrow> length u \<le> length x"
  obtains D where "image_mset fst (add_mset (a, x) D) = image_mset fst C"
    "image_mset snd (add_mset (a, x) D) = image_mset snd C"
    "wcost (add_mset (a, x) D) \<le> wcost C"
proof (cases "(a, x) \<in># C")
  case True
  then obtain D where "C = add_mset (a, x) D" by (meson multi_member_split)
  with that show thesis by simp
next
  case False
  from assms(1) obtain w where w: "(w, x) \<in># C" by auto
  from assms(2) obtain z where z: "(a, z) \<in># C" by auto
  from False w z have "(w, x) \<noteq> (a, z)" by auto
  with w z obtain C0 where C: "C = add_mset (w, x) (add_mset (a, z) C0)"
    by (rule two_members_split)
  have "a \<le> w" using least[of w] w by force
  moreover have "length z \<le> length x" using longest[of z] z by force
  ultimately have "0 \<le> (w - a) * (int (length x) - int (length z))"
    by (intro mult_nonneg_nonneg) simp_all
  then have "a * int (length x) + w * int (length z) \<le> w * int (length x) + a * int (length z)"
    by (simp add: algebra_simps)
  then have "wcost (add_mset (a, x) (add_mset (w, z) C0)) \<le> wcost C" by (simp add: C)
  moreover have "image_mset fst (add_mset (a, x) (add_mset (w, z) C0)) = image_mset fst C"
    by (simp add: C)
  moreover have "image_mset snd (add_mset (a, x) (add_mset (w, z) C0)) = image_mset snd C"
    by (simp add: C)
  ultimately show thesis using that by blast
qed

lemma total_length_add [simp]: "total_length (add_mset (w, x) C) = length x + total_length C"
  by (simp add: total_length_def)

lemma exchange:
  fixes C :: "(int \<times> bool list) multiset"
  assumes "pfree (image_mset snd C)"
    and "\<And>w. w \<in># image_mset fst C \<Longrightarrow> 0 \<le> w"
    and "image_mset fst C = add_mset a (add_mset b R)"
    and "a \<le> b"
    and "\<And>w. w \<in># R \<Longrightarrow> b \<le> w"
  shows "\<exists>C'. pfree (image_mset snd C') \<and> image_mset fst C' = add_mset (a + b) R \<and>
           wcost C' + a + b \<le> wcost C"
  using assms
proof (induction "total_length C" arbitrary: C rule: less_induct)
  case less
  note pf = less.prems(1) and nonneg = less.prems(2) and weights = less.prems(3)
  let ?X = "image_mset snd C"
  have "?X \<noteq> {#}" using weights by auto
  then obtain x where xX: "x \<in># ?X" and longest: "\<And>u. u \<in># ?X \<Longrightarrow> length u \<le> length x"
    by (rule longest_member) blast
  from xX obtain w where "(w, x) \<in># C" by auto
  then obtain C0 where C: "C = add_mset (w, x) C0" by (meson multi_member_split)
  let ?Y = "image_mset snd C0"
  have X: "?X = add_mset x ?Y" by (simp add: C)
  from pf have pf0: "pfree ?Y"
    and incomp: "\<And>u. u \<in># ?Y \<Longrightarrow> \<not> prefix x u \<and> \<not> prefix u x"
    unfolding X pfree_add by blast+
  have "size (image_mset fst C) = Suc (Suc (size R))" unfolding weights by simp
  then have "size C0 = Suc (size R)" by (simp add: C)
  then have "?Y \<noteq> {#}" by auto
  then obtain u0 where u0: "u0 \<in># ?Y" by blast
  have "x \<noteq> []" using incomp[OF u0] by auto
  then obtain p \<beta> where x: "x = p @ [\<beta>]" by (meson rev_exhaust)
  let ?y = "p @ [\<not> \<beta>]"
  have below: "u = ?y" if "u \<in># ?Y" "prefix p u" for u
  proof -
    from that(2) obtain s where s: "u = p @ s" by (auto simp: prefix_def)
    show ?thesis
    proof (cases s)
      case Nil
      with s have "prefix u x" by (simp add: x)
      with incomp[OF that(1)] show ?thesis by simp
    next
      case (Cons c s')
      show ?thesis
      proof (cases "c = \<beta>")
        case True
        with s Cons have "prefix x u" by (simp add: x)
        with incomp[OF that(1)] show ?thesis by simp
      next
        case False
        have "length u \<le> length x" using longest[of u] that(1) by (simp add: X)
        with s Cons have "s' = []" by (simp add: x)
        with s Cons False show ?thesis by simp
      qed
    qed
  qed
  have above: "\<not> prefix u p" if "u \<in># ?Y" for u
  proof
    assume "prefix u p"
    then have "prefix u x" by (simp add: x prefix_prefix)
    with incomp[OF that] show False by simp
  qed
  have w0: "0 \<le> w" using nonneg[of w] by (simp add: C)
  show ?case
  proof (cases "?y \<in># ?Y")
    case False
    let ?C1 = "add_mset (w, p) C0"
    have "\<not> prefix p u \<and> \<not> prefix u p" if "u \<in># ?Y" for u
      using below[OF that] above[OF that] False that by blast
    with pf0 have "pfree (image_mset snd ?C1)" by (simp add: pfree_add)
    moreover have "image_mset fst ?C1 = image_mset fst C" by (simp add: C)
    moreover have "total_length ?C1 < total_length C" by (simp add: C x)
    ultimately obtain C' where C': "pfree (image_mset snd C')"
      "image_mset fst C' = add_mset (a + b) R" "wcost C' + a + b \<le> wcost ?C1"
      using less.hyps[of ?C1] less.prems(2-5) by auto
    have "wcost ?C1 \<le> wcost C" using w0 by (simp add: C x algebra_simps)
    with C' show ?thesis by (intro exI[of _ C']) simp
  next
    case True
    have "a \<in># image_mset fst C" unfolding weights by simp
    moreover have "a \<le> v" if "v \<in># image_mset fst C" for v
      using that less.prems(4) less.prems(5)[of v] unfolding weights by fastforce
    ultimately obtain D where D: "image_mset fst (add_mset (a, x) D) = image_mset fst C"
      "image_mset snd (add_mset (a, x) D) = ?X" "wcost (add_mset (a, x) D) \<le> wcost C"
      using place[OF xX _ _ longest, of a] by blast
    from D(1) have fD: "image_mset fst D = add_mset b R" unfolding weights by simp
    from D(2) have sD: "image_mset snd D = ?Y" unfolding X by simp
    have "?y \<in># image_mset snd D" using True sD by simp
    moreover have "b \<in># image_mset fst D" unfolding fD by simp
    moreover have "b \<le> v" if "v \<in># image_mset fst D" for v
      using that less.prems(5) unfolding fD by auto
    moreover have "length u \<le> length ?y" if "u \<in># image_mset snd D" for u
      using longest[of u] that unfolding sD X by (simp add: x)
    ultimately obtain E where E: "image_mset fst (add_mset (b, ?y) E) = image_mset fst D"
      "image_mset snd (add_mset (b, ?y) E) = image_mset snd D"
      "wcost (add_mset (b, ?y) E) \<le> wcost D"
      using place[of ?y D b] by blast
    from E(1) have fE: "image_mset fst E = R" unfolding fD by simp
    from E(2) have sE: "?Y = add_mset ?y (image_mset snd E)" unfolding sD by simp
    let ?C' = "add_mset (a + b, p) E"
    from pf0 have pfE: "pfree (image_mset snd E)"
      and incompy: "\<And>u. u \<in># image_mset snd E \<Longrightarrow> \<not> prefix ?y u \<and> \<not> prefix u ?y"
      unfolding sE pfree_add by blast+
    have "\<not> prefix p u \<and> \<not> prefix u p" if "u \<in># image_mset snd E" for u
    proof -
      have uX0: "u \<in># ?Y" using that unfolding sE by simp
      have "\<not> prefix p u"
      proof
        assume "prefix p u"
        with below[OF uX0] have "u = ?y" by simp
        with incompy[OF that] show False by simp
      qed
      with above[OF uX0] show ?thesis by simp
    qed
    with pfE have "pfree (image_mset snd ?C')" by (simp add: pfree_add)
    moreover have "image_mset fst ?C' = add_mset (a + b) R" by (simp add: fE)
    moreover have "wcost ?C' + a + b \<le> wcost C"
    proof -
      have "wcost ?C' + a + b = a * int (length x) + wcost (add_mset (b, ?y) E)"
        by (simp add: x algebra_simps)
      also have "\<dots> \<le> a * int (length x) + wcost D" using E(3) by simp
      also have "\<dots> = wcost (add_mset (a, x) D)" by simp
      also have "\<dots> \<le> wcost C" by (rule D(3))
      finally show ?thesis .
    qed
    ultimately show ?thesis by blast
  qed
qed

section \<open>The merge loop builds a code of least weighted length\<close>

lemma wcost_nonneg:
  "(\<And>w. w \<in># image_mset fst C \<Longrightarrow> 0 \<le> w) \<Longrightarrow> 0 \<le> wcost C"
proof (induction C)
  case empty
  then show ?case by simp
next
  case (add e C)
  obtain w x where e: "e = (w, x)" by (cases e)
  have "0 \<le> w" using add.prems[of w] by (simp add: e)
  moreover have "0 \<le> wcost C" using add.prems by (intro add.IH) simp
  ultimately show ?case by (simp add: e)
qed

lemma mset_map_remove1:
  "x \<in> set xs \<Longrightarrow> mset (map f xs) = add_mset (f x) (mset (map f (remove1 x xs)))"
  by (induction xs) auto

lemma icost_merged: "icost (merged l r) = freq l + freq r + icost l + icost r"
  by (simp add: merged_def)

lemma build_loop_optimal:
  assumes "build_loop pq res" "res = Inr pq'" "\<And>u. u \<in> set pq \<Longrightarrow> 0 \<le> freq u"
    "pfree (image_mset snd C)" "image_mset fst C = mset (map freq pq)"
  shows "sum_list (map icost pq') - sum_list (map icost pq) \<le> wcost C"
  using assms
proof (induction pq res arbitrary: C rule: build_loop.induct)
  case (finished pq)
  have "0 \<le> wcost C"
  proof (rule wcost_nonneg)
    fix w assume "w \<in># image_mset fst C"
    then show "0 \<le> w" using finished.prems(2) unfolding finished.prems(4) by auto
  qed
  with finished.prems(1) show ?case by simp
next
  case (overflow pq l r)
  then show ?case by simp
next
  case (merge pq l r res)
  let ?rest = "remove1 r (remove1 l pq)"
  let ?pq = "merged l r # ?rest"
  have l: "l \<in> set pq" and r: "r \<in> set (remove1 l pq)"
    using merge.hyps(2,3) by (auto dest: pq_topD simp: pq_pop_def)
  have r': "r \<in> set pq" using r by (meson notin_set_remove1)
  have lr: "freq l \<le> freq r" using pq_top_least[OF merge.hyps(2) r'] .
  have weights: "image_mset fst C = add_mset (freq l) (add_mset (freq r) (mset (map freq ?rest)))"
    unfolding merge.prems(4) mset_map_remove1[OF l, of freq] mset_map_remove1[OF r, of freq] ..
  have least: "freq r \<le> w" if "w \<in># mset (map freq ?rest)" for w
  proof -
    from that have "w \<in> set (map freq ?rest)" by (simp only: set_mset_mset)
    then obtain u where u: "u \<in> set ?rest" "w = freq u" by (auto simp only: set_map)
    then have "u \<in> set (remove1 l pq)" by (meson notin_set_remove1)
    with pq_top_least[OF merge.hyps(3)[unfolded pq_pop_def]] u(2) show ?thesis by simp
  qed
  have nonneg: "0 \<le> w" if "w \<in># image_mset fst C" for w
    using that merge.prems(2) unfolding merge.prems(4) by auto
  from exchange[OF merge.prems(3) nonneg weights lr least]
  obtain C' where C': "pfree (image_mset snd C')"
    "image_mset fst C' = add_mset (freq l + freq r) (mset (map freq ?rest))"
    "wcost C' + freq l + freq r \<le> wcost C" by blast
  have "sum_list (map icost pq') - sum_list (map icost ?pq) \<le> wcost C'"
  proof (rule merge.IH[unfolded pq_push_def pq_pop_def, OF merge.prems(1) _ C'(1)])
    fix u assume "u \<in> set ?pq"
    then have "u = merged l r \<or> u \<in> set pq" by (auto dest: notin_set_remove1)
    then show "0 \<le> freq u"
      using merge.prems(2)[of l] merge.prems(2)[of r] merge.prems(2)[of u] l r'
      by (auto simp: merged_def)
  next
    show "image_mset fst C' = mset (map freq ?pq)" by (simp add: C'(2) merged_def)
  qed
  moreover have "sum_list (map icost ?pq) = freq l + freq r + sum_list (map icost pq)"
    using sum_list_map_remove1[OF l, of icost] sum_list_map_remove1[OF r, of icost]
    by (simp add: icost_merged)
  ultimately show ?case using C'(3) by simp
qed

lemma paths_cost:
  assumes "well_formed t" "\<And>c f. (c, f) \<in> set (leaves t) \<Longrightarrow> w c = f"
  shows "(\<Sum>(c, p)\<leftarrow>paths (Some t) code. w c * int (length p)) = icost t + freq t * int (length code)"
  using assms
proof (induction t arbitrary: code rule: well_formed.induct)
  case (1 c f)
  then show ?case by simp
next
  case (2 c f l r)
  have "(\<Sum>(c, p)\<leftarrow>paths (Some l) (code @ ''0''). w c * int (length p))
      = icost l + freq l * int (length (code @ ''0''))"
    using "2.prems" by (intro "2.IH"(1)) auto
  moreover have "(\<Sum>(c, p)\<leftarrow>paths (Some r) (code @ ''1''). w c * int (length p))
      = icost r + freq r * int (length (code @ ''1''))"
    using "2.prems" by (intro "2.IH"(2)) auto
  ultimately show ?case using "2.prems"(1) by (simp add: algebra_simps)
qed simp_all

lemma build_tree_cost:
  assumes "build_tree text (Inr t)"
  shows "weighted_length text (buildCodes (Some t) [] Map.empty) = icost t"
proof -
  let ?cs = "buildCodes (Some t) [] Map.empty"
  let ?ps = "paths (Some t) []"
  let ?w = "\<lambda>c. int (count_list text c)"
  note lv = build_tree_leaves[OF assms]
  have d: "distinct (map fst ?ps)" using lv(3) by (simp add: paths_leaves)
  have keys: "set (map fst ?ps) = set text"
    unfolding paths_leaves using build_tree_symbols[OF assms] by simp
  have "(\<Sum>(c, p)\<leftarrow>?ps. ?w c * int (length p)) = icost t + freq t * int (length ([]::string))"
    using lv(1,2) by (intro paths_cost) auto
  then have "icost t = (\<Sum>(c, p)\<leftarrow>?ps. ?w c * int (length p))" by simp
  also have "\<dots> = (\<Sum>c\<leftarrow>map fst ?ps. ?w c * int (length (the (?cs c))))"
  proof -
    have "(case e of (c, p) \<Rightarrow> ?w c * int (length p)) = ?w (fst e) * int (length (the (?cs (fst e))))"
      if "e \<in> set ?ps" for e
    proof -
      obtain c p where e: "e = (c, p)" by (cases e)
      with that build_tree_codes[OF assms, of c p] have "?cs c = Some p" by simp
      then show ?thesis by (simp add: e)
    qed
    then show ?thesis by (simp add: comp_def cong: map_cong)
  qed
  also have "\<dots> = (\<Sum>c\<in>set (map fst ?ps). ?w c * int (length (the (?cs c))))"
    using d by (rule sum_list_distinct_conv_sum_set)
  also have "\<dots> = weighted_length text ?cs" unfolding keys weighted_length_def ..
  finally show ?thesis by simp
qed

lemma encoded_length:
  assumes "set text \<subseteq> dom cs" "encode text cs = Inr enc"
  shows "int (length enc) = weighted_length text cs"
proof -
  from assms have "enc = concat (map (\<lambda>c. the (cs c)) text)"
    by (simp add: encode_def encode_loop_concat)
  then have "length enc = sum_list (map (\<lambda>c. length (the (cs c))) text)"
    by (simp add: length_concat comp_def)
  also have "\<dots> = (\<Sum>c\<in>set text. count_list text c * length (the (cs c)))"
    by (rule sum_list_map_eq_sum_count)
  finally show ?thesis by (simp add: weighted_length_def)
qed

lemma bits_prefix:
  assumes "set x \<subseteq> {CHR ''0'', CHR ''1''}" "set y \<subseteq> {CHR ''0'', CHR ''1''}"
    and "prefix (bits x) (bits y)"
  shows "prefix x y"
proof -
  let ?g = "\<lambda>b. b = CHR ''1''"
  from assms(3) obtain zs where "map ?g y = map ?g x @ zs" by (auto simp: prefix_def bits_def)
  then obtain y1 y2 where y: "y = y1 @ y2" "map ?g y1 = map ?g x"
    by (auto simp: map_eq_append_conv)
  have "set y1 \<union> set x \<subseteq> {CHR ''0'', CHR ''1''}" using assms(1,2) y(1) by auto
  moreover have "inj_on ?g {CHR ''0'', CHR ''1''}" by (simp add: inj_on_def)
  ultimately have "inj_on ?g (set y1 \<union> set x)" by (rule inj_on_subset[rotated])
  with y(2) have "y1 = x" by (simp add: inj_on_map_eq_map)
  with y(1) show ?thesis by simp
qed

lemma pfree_image:
  assumes "finite S" "\<And>a b. a \<in> S \<Longrightarrow> b \<in> S \<Longrightarrow> a \<noteq> b \<Longrightarrow> \<not> prefix (f a) (f b)"
  shows "pfree (image_mset f (mset_set S))"
  using assms
proof (induction S rule: finite_induct)
  case empty
  then show ?case by simp
next
  case (insert a S)
  have "pfree (image_mset f (mset_set S))" using insert.prems by (intro insert.IH) auto
  moreover have "\<not> prefix (f a) u \<and> \<not> prefix u (f a)" if "u \<in># image_mset f (mset_set S)" for u
  proof -
    from that insert.hyps(1) obtain b where b: "b \<in> S" "u = f b" by auto
    with insert.hyps(2) have "a \<noteq> b" by auto
    with b insert.prems[of a b] insert.prems[of b a] show ?thesis by auto
  qed
  ultimately show ?case using insert.hyps by (simp add: pfree_add)
qed

lemma build_tree_run:
  assumes "build_tree text (Inr t)"
  obtains fr kvs where "count_loop text Map.empty = Inr fr" "iterates fr kvs"
    "build_loop (push_leaves kvs []) (Inr [t])"
  using assms
proof (cases rule: build_tree.cases)
  case (top fr kvs pq)
  note inv = build_loop_invariants[OF top(3) refl]
  from inv(3) top(4) have pq: "pq = [t]" by (cases pq) (auto dest: pq_topD)
  with that top show ?thesis by blast
qed

lemma iterates_mset:
  assumes "count_loop text Map.empty = Inr fr" "iterates fr kvs"
  shows "mset kvs = image_mset (\<lambda>c. (c, int (count_list text c))) (mset_set (set text))"
proof -
  have "distinct kvs" using assms(2) by (auto simp: iterates_def distinct_map)
  then have "mset kvs = mset_set (set kvs)" by (simp add: mset_set_set)
  also have "set kvs = (\<lambda>c. (c, int (count_list text c))) ` set text"
    using iterates_set[OF assms(2)] count_loop_empty[OF assms(1)] by (auto split: if_splits)
  also have "mset_set \<dots> = image_mset (\<lambda>c. (c, int (count_list text c))) (mset_set (set text))"
    by (intro image_mset_mset_set[symmetric]) (simp add: inj_on_def)
  finally show ?thesis .
qed

lemma icost_initial: "sum_list (map icost (push_leaves kvs [])) = 0"
  by (induction kvs rule: rev_induct) (auto simp: push_leaves_eq)

lemma freq_initial: "mset (map freq (push_leaves kvs [])) = image_mset snd (mset kvs)"
  by (induction kvs rule: rev_induct) (auto simp: push_leaves_eq)

lemma freq_initial_nonneg:
  assumes "count_loop text Map.empty = Inr fr" "iterates fr kvs" "u \<in> set (push_leaves kvs [])"
  shows "0 \<le> freq u"
proof -
  from assms(3) obtain c f where "(c, f) \<in> set kvs" "u = Node c f None None"
    by (auto simp: push_leaves_eq)
  with iterates_set[OF assms(2), of c f] count_loop_empty[OF assms(1), of c]
  show ?thesis by (auto split: if_splits)
qed

lemma built_code_optimal:
  assumes "build_tree text (Inr t)" "binary_prefix_code text alt"
  shows "weighted_length text (buildCodes (Some t) [] Map.empty) \<le> weighted_length text alt"
proof -
  from assms(1) obtain fr kvs where fr: "count_loop text Map.empty = Inr fr"
    and it: "iterates fr kvs" and loop: "build_loop (push_leaves kvs []) (Inr [t])"
    by (rule build_tree_run)
  let ?h = "\<lambda>c. (int (count_list text c), bits (the (alt c)))"
  let ?C = "image_mset ?h (mset_set (set text))"
  have "pfree (image_mset (\<lambda>c. bits (the (alt c))) (mset_set (set text)))"
  proof (rule pfree_image)
    fix a b assume ab: "a \<in> set text" "b \<in> set text" "a \<noteq> b"
    with assms(2) have "\<not> prefix (the (alt a)) (the (alt b))"
      and "set (the (alt a)) \<subseteq> {CHR ''0'', CHR ''1''}" "set (the (alt b)) \<subseteq> {CHR ''0'', CHR ''1''}"
      unfolding binary_prefix_code_def by blast+
    then show "\<not> prefix (bits (the (alt a))) (bits (the (alt b)))"
      using bits_prefix by blast
  qed simp
  then have pf: "pfree (image_mset snd ?C)" by (simp add: multiset.map_comp comp_def)
  have weights: "image_mset fst ?C = mset (map freq (push_leaves kvs []))"
    unfolding freq_initial iterates_mset[OF fr it] by (simp add: multiset.map_comp comp_def)
  have "sum_list (map icost [t]) - sum_list (map icost (push_leaves kvs [])) \<le> wcost ?C"
    using loop refl freq_initial_nonneg[OF fr it] pf weights by (rule build_loop_optimal)
  then have "icost t \<le> wcost ?C" by (simp add: icost_initial)
  also have "wcost ?C = weighted_length text alt"
    unfolding wcost_def weighted_length_def
    by (simp add: multiset.map_comp comp_def bits_def sum_unfold_sum_mset)
  finally show ?thesis by (simp add: build_tree_cost[OF assms(1)])
qed

lemma built_code_binary_prefix_code:
  assumes "build_tree text (Inr t)"
  shows "binary_prefix_code text (buildCodes (Some t) [] Map.empty)"
proof -
  let ?cs = "buildCodes (Some t) [] Map.empty"
  have dom: "dom ?cs = set text" using assms by (rule build_tree_codes_dom)
  have "set (the (?cs a)) \<subseteq> {CHR ''0'', CHR ''1''}" if "a \<in> set text" for a
  proof -
    from that dom have "a \<in> dom ?cs" by simp
    then obtain p where p: "?cs a = Some p" by blast
    from paths_chars[OF buildCodes_SomeD[OF p]] p show ?thesis by simp
  qed
  moreover have "\<not> prefix (the (?cs a)) (the (?cs b))"
    if "a \<in> set text" "b \<in> set text" "a \<noteq> b" for a b
  proof -
    from that dom have "a \<in> dom ?cs" "b \<in> dom ?cs" by simp_all
    then obtain p q where "?cs a = Some p" "?cs b = Some q" by blast
    with buildCodes_prefix_free[of "Some t" a p b q] that(3) show ?thesis by simp
  qed
  ultimately show ?thesis unfolding binary_prefix_code_def using dom by blast
qed

lemmas pq_eval = pq_push_def pq_pop_def pq_top_def Compare_def in_int_def INT_MAX_def INT_MIN_def merged_def

lemma build_tree_abracadabra: "build_tree ''abracadabra'' (Inr tree_abracadabra)"
proof (rule build_tree_intro[where
      kvs = "[(CHR ''d'', 1), (CHR ''c'', 1), (CHR ''r'', 2), (CHR ''b'', 2), (CHR ''a'', 5)]"])
  show "build_loop
     (push_leaves [(CHR ''d'', 1), (CHR ''c'', 1), (CHR ''r'', 2), (CHR ''b'', 2), (CHR ''a'', 5)] [])
     (Inr [tree_abracadabra])"
    unfolding tree_abracadabra_def
    apply (rule build_loop.merge[where l = "Node (CHR ''c'') 1 None None" and r = "Node (CHR ''d'') 1 None None"])
        apply (simp_all add: pq_eval)
    apply (rule build_loop.merge[where l = "Node (CHR ''b'') 2 None None" and r = "Node (CHR ''r'') 2 None None"])
        apply (simp_all add: pq_eval)
    apply (rule build_loop.merge[where
          l = "Node (CHR 0x00) 2 (Some (Node (CHR ''c'') 1 None None)) (Some (Node (CHR ''d'') 1 None None))"
          and r = "Node (CHR 0x00) 4 (Some (Node (CHR ''b'') 2 None None)) (Some (Node (CHR ''r'') 2 None None))"])
        apply (simp_all add: pq_eval)
    apply (rule build_loop.merge[where l = "Node (CHR ''a'') 5 None None"
          and r = "Node (CHR 0x00) 6
          (Some (Node (CHR 0x00) 2 (Some (Node (CHR ''c'') 1 None None)) (Some (Node (CHR ''d'') 1 None None))))
          (Some (Node (CHR 0x00) 4 (Some (Node (CHR ''b'') 2 None None)) (Some (Node (CHR ''r'') 2 None None))))"])
        apply (simp_all add: pq_eval)
    apply (rule build_loop.finished)
    apply simp
    done
qed (auto simp: INT_MAX_def)

lemma icost_abracadabra: "icost tree_abracadabra = 23"
  by (simp add: tree_abracadabra_def)

lemma main_run_abracadabra: "main_run ''abracadabra'' (Inr run_abracadabra)"
proof -
  have "codec ''abracadabra'' tree_abracadabra = Inr run_abracadabra"
    by (simp add: codec_def tree_abracadabra_def encode_def decode_def run_abracadabra_def)
  with main_run.with_tree[OF build_tree_abracadabra] show ?thesis by simp
qed

lemma fixed_width_code_ok: "binary_prefix_code ''abracadabra'' fixed_width_code"
  unfolding binary_prefix_code_def fixed_width_code_def by auto

section \<open>Every run on a non-empty text succeeds\<close>

lemma iterates_exists:
  assumes "count_loop text Map.empty = Inr fr"
  shows "\<exists>kvs. iterates fr kvs"
proof -
  let ?kvs = "map (\<lambda>c. (c, int (count_list text c))) (remdups text)"
  have "distinct (map fst ?kvs)" by (simp add: comp_def)
  moreover have "map_of ?kvs = fr"
  proof
    fix c
    show "map_of ?kvs c = fr c"
      unfolding count_loop_empty[OF assms, of c]
      by (simp add: map_of_map_restrict restrict_map_def)
  qed
  ultimately show ?thesis unfolding iterates_def by blast
qed

lemma pq_top_exists:
  assumes "pq \<noteq> []"
  shows "\<exists>x. pq_top pq x"
proof -
  let ?x = "arg_min_list freq pq"
  have "?x \<in> set pq" using assms by (rule arg_min_list_in)
  moreover have "freq ?x \<le> freq y" if "y \<in> set pq" for y
    using that assms by (simp add: f_arg_min_list_f)
  ultimately have "pq_top pq ?x"
    by (auto simp: pq_top_def Compare_def list_all_iff not_less)
  then show ?thesis ..
qed

lemma merge_in_int:
  assumes "\<And>u. u \<in> set pq \<Longrightarrow> 0 \<le> freq u" "sum_list (map freq pq) \<le> INT_MAX"
    and "l \<in> set pq" "r \<in> set (remove1 l pq)"
  shows "in_int (freq l + freq r)"
    and "sum_list (map freq (merged l r # remove1 r (remove1 l pq))) = sum_list (map freq pq)"
    and "\<And>u. u \<in> set (merged l r # remove1 r (remove1 l pq)) \<Longrightarrow> 0 \<le> freq u"
proof -
  have r': "r \<in> set pq" using assms(4) by (meson notin_set_remove1)
  show s: "sum_list (map freq (merged l r # remove1 r (remove1 l pq))) = sum_list (map freq pq)"
    using sum_list_map_remove1[OF assms(3), of freq] sum_list_map_remove1[OF assms(4), of freq]
    by (simp add: merged_def)
  show nn: "0 \<le> freq u" if "u \<in> set (merged l r # remove1 r (remove1 l pq))" for u
  proof -
    from that have "u = merged l r \<or> u \<in> set pq" by (auto dest: notin_set_remove1)
    then show ?thesis
      using assms(1)[of l] assms(1)[of r] assms(1)[of u] assms(3) r' by (auto simp: merged_def)
  qed
  have "0 \<le> sum_list (map freq (remove1 r (remove1 l pq)))"
    by (rule sum_list_nonneg) (use nn in auto)
  with s assms(2) have "freq l + freq r \<le> INT_MAX" by (simp add: merged_def)
  moreover have "0 \<le> freq l + freq r" using assms(1)[of l] assms(1)[of r] assms(3) r' by simp
  ultimately show "in_int (freq l + freq r)" by (simp add: in_int_def INT_MIN_def)
qed

lemma build_loop_progress:
  assumes "\<And>u. u \<in> set pq \<Longrightarrow> 0 \<le> freq u" "sum_list (map freq pq) \<le> INT_MAX"
  shows "\<exists>pq'. build_loop pq (Inr pq')"
  using assms
proof (induction "length pq" arbitrary: pq rule: less_induct)
  case less
  show ?case
  proof (cases "1 < length pq")
    case False
    then show ?thesis by (blast intro: build_loop.finished)
  next
    case True
    then have "pq \<noteq> []" by auto
    then obtain l where l: "pq_top pq l" using pq_top_exists by blast
    then have lin: "l \<in> set pq" by (rule pq_topD)
    with True have "remove1 l pq \<noteq> []" by (auto simp: length_remove1 dest!: arg_cong[where f = length])
    then obtain r where r: "pq_top (remove1 l pq) r" using pq_top_exists by blast
    then have rin: "r \<in> set (remove1 l pq)" by (rule pq_topD)
    note m = merge_in_int[OF less.prems lin rin]
    let ?pq = "merged l r # remove1 r (remove1 l pq)"
    have "length ?pq < length pq" using lin rin True by (simp add: length_remove1)
    from less.hyps[OF this m(3)] m(2) less.prems(2)
    obtain pq' where "build_loop ?pq (Inr pq')" by auto
    then have "build_loop pq (Inr pq')"
      using True l r m(1) by (intro build_loop.merge[of pq l r]) (simp_all add: pq_push_def pq_pop_def)
    then show ?thesis ..
  qed
qed

lemma build_loop_no_overflow:
  assumes "build_loop pq res" "\<And>u. u \<in> set pq \<Longrightarrow> 0 \<le> freq u" "sum_list (map freq pq) \<le> INT_MAX"
  shows "\<exists>pq'. res = Inr pq'"
  using assms
proof (induction pq res rule: build_loop.induct)
  case (finished pq)
  then show ?case by simp
next
  case (overflow pq l r)
  have "l \<in> set pq" "r \<in> set (remove1 l pq)"
    using overflow.hyps(2,3) by (auto dest: pq_topD simp: pq_pop_def)
  from merge_in_int(1)[OF overflow.prems this] overflow.hyps(4) show ?case by simp
next
  case (merge pq l r res)
  have lr: "l \<in> set pq" "r \<in> set (remove1 l pq)"
    using merge.hyps(2,3) by (auto dest: pq_topD simp: pq_pop_def)
  note m = merge_in_int[OF merge.prems lr]
  show ?case
    using merge.IH[unfolded pq_push_def pq_pop_def, OF m(3)] m(2) merge.prems(2) by simp
qed

lemma freq_initial_sum:
  assumes "count_loop text Map.empty = Inr fr" "iterates fr kvs"
  shows "sum_list (map freq (push_leaves kvs [])) = int (length text)"
proof -
  have "sum_list (map freq (push_leaves kvs [])) = sum_mset (mset (map freq (push_leaves kvs [])))"
    by (simp only: sum_mset_sum_list)
  also have "\<dots> = (\<Sum>c\<in>set text. int (count_list text c))"
    unfolding freq_initial iterates_mset[OF assms]
    by (simp add: multiset.map_comp comp_def sum_unfold_sum_mset)
  also have "\<dots> = int (\<Sum>c\<in>set text. count_list text c)" by simp
  also have "(\<Sum>c\<in>set text. count_list text c) = length text"
    by (rule sum_count_set) simp_all
  finally show ?thesis .
qed

lemma build_tree_total:
  assumes "text \<noteq> []" "int (length text) \<le> INT_MAX"
  shows "\<exists>t. build_tree text (Inr t)"
proof -
  from count_loop_total[OF assms(2), of Map.empty]
  obtain fr where fr: "count_loop text Map.empty = Inr fr" by auto
  from iterates_exists[OF fr] obtain kvs where it: "iterates fr kvs" ..
  let ?pq = "push_leaves kvs []"
  have "sum_list (map freq ?pq) \<le> INT_MAX" using freq_initial_sum[OF fr it] assms(2) by simp
  with build_loop_progress[of ?pq] freq_initial_nonneg[OF fr it]
  obtain pq' where loop: "build_loop ?pq (Inr pq')" by blast
  note inv = build_loop_invariants[OF loop refl]
  have "length kvs = card (set text)" using iterates_length[OF it] count_loop_dom[OF fr] by simp
  with assms(1) have "kvs \<noteq> []" by (auto simp: card_eq_0_iff)
  then have "?pq \<noteq> []" by (simp add: push_leaves_eq)
  with inv(3,4) obtain t where "pq' = [t]" by (cases pq') auto
  with build_tree.top[OF fr it loop, of t] show ?thesis by (auto simp: pq_top_singleton)
qed

lemma build_tree_no_error:
  assumes "text \<noteq> []" "int (length text) \<le> INT_MAX" "build_tree text res"
  shows "\<exists>t. res = Inr t"
  using assms(3)
proof (cases rule: build_tree.cases)
  case (count_fails e)
  with count_loop_total[OF assms(2), of Map.empty] show ?thesis by auto
next
  case (loop_fails fr kvs e)
  have "sum_list (map freq (push_leaves kvs [])) \<le> INT_MAX"
    using freq_initial_sum[OF loop_fails(2,3)] assms(2) by simp
  with build_loop_no_overflow[OF loop_fails(4) freq_initial_nonneg[OF loop_fails(2,3)]]
  show ?thesis by auto
next
  case (top_of_empty fr kvs)
  have "length kvs = card (set text)"
    using iterates_length[OF top_of_empty(3)] count_loop_dom[OF top_of_empty(2)] by simp
  with assms(1) have "kvs \<noteq> []" by (auto simp: card_eq_0_iff)
  then have "push_leaves kvs [] \<noteq> []" by (simp add: push_leaves_eq)
  with build_loop_invariants(4)[OF top_of_empty(4) refl] show ?thesis by simp
next
  case (top fr kvs pq r)
  then show ?thesis by simp
qed

lemma codec_total:
  assumes "build_tree text (Inr t)"
  shows "\<exists>out. codec text t = Inr out"
proof -
  let ?cs = "buildCodes (Some t) [] Map.empty"
  have dom: "set text \<subseteq> dom ?cs" using build_tree_codes_dom[OF assms] by simp
  then have enc: "encode text ?cs = Inr (concat (map (\<lambda>c. the (?cs c)) text))"
    by (simp add: encode_def encode_loop_concat)
  have "\<exists>dec. decode (concat (map (\<lambda>c. the (?cs c)) text)) (Some t) = Inr dec"
  proof (cases "is_leaf t")
    case True
    then have "?cs = [ch t \<mapsto> []]" by (cases t) (simp add: is_leaf_def)
    then have "the (?cs c) = []" if "c \<in> set text" for c
      using that dom by (auto split: if_splits)
    then have "concat (map (\<lambda>c. the (?cs c)) text) = []" by simp
    moreover have "decode [] (Some t) = Inr []" by (simp add: decode_def)
    ultimately show ?thesis by (simp only: exI)
  next
    case False
    have st: "strict t" using build_tree_leaves(1)[OF assms] by (rule well_formed_strict)
    from decode_loop_no_error[OF st False st False] show ?thesis
      by (metis decode_def fst_conv map_sum.simps(2))
  qed
  with enc show ?thesis by (auto simp: codec_def Let_def)
qed

section \<open>The claims\<close>

subsection \<open>C1: round trip\<close>

text \<open>
  C1 (round-trip law). The claim is that for every non-empty text the decoded text equals
  the input, the single repeated symbol \<open>aaaa\<close> included. On \<open>aaaa\<close> the program has
  exactly one run: the root is the lone leaf, \<open>buildCodes\<close> stores the empty code for
  \<open>a\<close>, the encoded stream is empty and \<open>decode\<close> returns the empty text, not \<open>aaaa\<close>.
\<close>

theorem main_single_symbol_decodes_nothing:
  "main_run ''aaaa'' res \<longleftrightarrow>
     res = Inr \<lparr>root = Node (CHR ''a'') 4 None None, codes = [CHR ''a'' \<mapsto> ''''],
                encoded = '''', decoded = ''''\<rparr>"
  by (simp add: main_run_iff build_tree_aaaa codec_def encode_def decode_def)

subsection \<open>C2: a stream that ends inside a symbol\<close>

text \<open>
  C2 as stated (\<open>decode\<close> signals an error when the walk is not back at the root after
  the final bit) fails: against the tree built for \<open>abc\<close> the stream \<open>01\<close> ends at an
  internal node, and \<open>decode\<close> returns \<open>c\<close>.
\<close>

theorem decode_truncated_stream_no_error:
  "build_tree ''abc'' (Inr tree_abc) \<and>
   decode_loop ''01'' (Some tree_abc) (Some tree_abc) [] = Inr (''c'', Some tree_ab) \<and>
   Some tree_ab \<noteq> Some tree_abc \<and>
   decode ''01'' (Some tree_abc) = Inr ''c''"
  by (simp add: build_tree_tree_abc decode_def) (simp add: tree_abc_def tree_ab_def)

text \<open>
  C2, amended: \<open>decode\<close> has no terminal check. For a root built from a text with at
  least two distinct symbols and for every stream, \<open>decode\<close> returns normally; when the
  walk is not back at the root after the final bit, the output is that of a proper prefix
  of the stream which ends on a symbol boundary, and the bits after it are dropped.
\<close>

theorem decode_drops_trailing_partial_symbol:
  assumes "build_tree text (Inr t)" "2 \<le> card (set text)"
  shows "\<exists>out cur. decode_loop stream (Some t) (Some t) [] = Inr (out, cur) \<and>
           decode stream (Some t) = Inr out \<and>
           (cur \<noteq> Some t \<longrightarrow>
             (\<exists>s1 s2. stream = s1 @ s2 \<and> s2 \<noteq> [] \<and>
                decode_loop s1 (Some t) (Some t) [] = Inr (out, Some t)))"
proof -
  have st: "strict t" using build_tree_leaves(1)[OF assms(1)] by (rule well_formed_strict)
  have nl: "\<not> is_leaf t" using assms by (rule build_tree_not_leaf)
  from decode_loop_no_error[OF st nl st nl, of stream "[]"] obtain out c'
    where d: "decode_loop stream (Some t) (Some t) [] = Inr (out, Some c')" by blast
  then have "decode stream (Some t) = Inr out" by (simp add: decode_def)
  with d decode_loop_partial_symbol[OF d] show ?thesis by auto
qed

theorem decode_drops_trailing_partial_symbol_witness:
  "build_tree ''abc'' (Inr tree_abc) \<and> 2 \<le> card (set ''abc'') \<and>
   (\<exists>out cur. decode_loop ''01'' (Some tree_abc) (Some tree_abc) [] = Inr (out, cur) \<and>
           decode ''01'' (Some tree_abc) = Inr out \<and>
           (cur \<noteq> Some tree_abc \<longrightarrow>
             (\<exists>s1 s2. ''01'' = s1 @ s2 \<and> s2 \<noteq> [] \<and>
                decode_loop s1 (Some tree_abc) (Some tree_abc) [] = Inr (out, Some tree_abc))))"
proof -
  have c: "2 \<le> card (set ''abc'')" by simp
  from decode_drops_trailing_partial_symbol[OF build_tree_tree_abc c, of "''01''"]
    build_tree_tree_abc c
  show ?thesis by blast
qed

subsection \<open>C3: characters other than 0 and 1\<close>

text \<open>
  C3 as stated (\<open>decode\<close> rejects a stream holding a character other than \<open>0\<close> or \<open>1\<close>)
  fails: against the tree built for \<open>ab\<close> the stream \<open>x\<close> is decoded to \<open>b\<close>.
\<close>

theorem decode_accepts_other_characters:
  "build_tree ''ab''
     (Inr (Node (CHR 0x00) 2 (Some (Node (CHR ''a'') 1 None None)) (Some (Node (CHR ''b'') 1 None None)))) \<and>
   decode ''x''
     (Some (Node (CHR 0x00) 2 (Some (Node (CHR ''a'') 1 None None)) (Some (Node (CHR ''b'') 1 None None))))
     = Inr ''b''"
  by (simp add: build_tree_ab decode_def)

text \<open>
  C3, amended: \<open>decode\<close> has no format check. For every stream and every root it
  behaves exactly as on the stream in which each character other than \<open>0\<close> is replaced
  by \<open>1\<close>: such a character is a transition to the right child.
\<close>

theorem decode_reads_other_characters_as_one:
  "decode stream rt = decode (map (\<lambda>c. if c = CHR ''0'' then CHR ''0'' else CHR ''1'') stream) rt"
  using decode_loop_bitchar[of stream rt rt "[]"]
  by (simp add: decode_def bitchar_def[abs_def])

subsection \<open>C4: codes are non-empty\<close>

text \<open>
  C4 (every code of the table is a non-empty string of \<open>0\<close> and \<open>1\<close>, also for one
  distinct symbol). For \<open>aaaa\<close> the builder returns the lone leaf and \<open>buildCodes\<close>
  records the empty string as the code of \<open>a\<close>.
\<close>

theorem single_symbol_code_is_empty:
  "build_tree ''aaaa'' (Inr (Node (CHR ''a'') 4 None None)) \<and>
   buildCodes (Some (Node (CHR ''a'') 4 None None)) '''' Map.empty (CHR ''a'') = Some ''''"
  by (simp add: build_tree_aaaa)

subsection \<open>C5: empty input\<close>

text \<open>
  C5 (for the empty text the builder yields a null root and an empty code table, with no
  undefined step). The queue is empty when the merge loop ends, and \<open>pq.top()\<close> of the
  empty queue is undefined behaviour: every run on the empty text ends there.
\<close>

theorem main_empty_text_undefined_top:
  "main_run [] res \<longleftrightarrow> res = Inl EmptyQueueTop"
  by (simp add: main_run_iff build_tree_empty)

subsection \<open>C6: the code table is prefix-free\<close>

text \<open>
  C6 (prefix-free invariant): in the code table of every successful run, the code of a
  symbol is not a prefix of the code of a different symbol.
\<close>

theorem code_table_prefix_free:
  assumes "main_run text (Inr out)" "codes out a = Some ca" "codes out b = Some cb" "a \<noteq> b"
  shows "\<not> prefix ca cb"
  using assms buildCodes_prefix_free[of "Some (root out)" a ca b cb] main_run_InrD(2)[OF assms(1)]
  by simp

theorem code_table_prefix_free_witness:
  "main_run ''ab'' (Inr \<lparr>root = tree_ab, codes = [CHR ''a'' \<mapsto> ''0'', CHR ''b'' \<mapsto> ''1''],
      encoded = ''01'', decoded = ''ab''\<rparr>) \<and>
   [CHR ''a'' \<mapsto> ''0'', CHR ''b'' \<mapsto> ''1''] (CHR ''a'') = Some ''0'' \<and>
   [CHR ''a'' \<mapsto> ''0'', CHR ''b'' \<mapsto> ''1''] (CHR ''b'') = Some ''1'' \<and>
   CHR ''a'' \<noteq> CHR ''b'' \<and> \<not> prefix ''0'' ''1''"
  using code_table_prefix_free[OF main_run_ab, of "CHR ''a''" "''0''" "CHR ''b''" "''1''"] main_run_ab
  by simp

subsection \<open>C7: weighted length optimality\<close>

text \<open>
  C7 (weighted length optimality): in every successful run the code table is a binary
  prefix code for the symbols of the text, and the sum over the symbols of frequency
  times code length is at most that of any binary prefix code for the same text, hence
  the minimum; the encoded stream has exactly that many bits; and for the text
  \<open>abracadabra\<close> every run, whatever the order among equal frequencies, encodes to
  exactly 23 bits.
\<close>

theorem huffman_code_optimal:
  assumes "main_run text (Inr out)"
  shows "binary_prefix_code text (codes out) \<and>
    (\<forall>alt. binary_prefix_code text alt \<longrightarrow>
       weighted_length text (codes out) \<le> weighted_length text alt) \<and>
    int (length (encoded out)) = weighted_length text (codes out) \<and>
    (text = ''abracadabra'' \<longrightarrow> length (encoded out) = 23)"
proof -
  note run = main_run_InrD[OF assms]
  let ?t = "root out"
  have bpc: "binary_prefix_code text (codes out)"
    unfolding run(2) using run(1) by (rule built_code_binary_prefix_code)
  have opt: "weighted_length text (codes out) \<le> weighted_length text alt"
    if "binary_prefix_code text alt" for alt
    unfolding run(2) using run(1) that by (rule built_code_optimal)
  have len: "int (length (encoded out)) = weighted_length text (codes out)"
    using bpc run(3) by (intro encoded_length) (simp_all add: binary_prefix_code_def)
  have "length (encoded out) = 23" if tx: "text = ''abracadabra''"
  proof -
    let ?ref = "buildCodes (Some tree_abracadabra) [] Map.empty"
    have ref: "build_tree text (Inr tree_abracadabra)"
      unfolding tx by (rule build_tree_abracadabra)
    have cost_ref: "weighted_length text ?ref = 23"
      using build_tree_cost[OF ref] icost_abracadabra by simp
    have "weighted_length text (codes out) \<le> weighted_length text ?ref"
      using built_code_binary_prefix_code[OF ref] by (rule opt)
    moreover have "weighted_length text ?ref \<le> weighted_length text (codes out)"
      using ref bpc by (rule built_code_optimal)
    ultimately have "weighted_length text (codes out) = 23" using cost_ref by simp
    with len show ?thesis by simp
  qed
  with bpc opt len show ?thesis by blast
qed

theorem huffman_code_optimal_witness:
  "main_run ''abracadabra'' (Inr run_abracadabra) \<and>
   binary_prefix_code ''abracadabra'' fixed_width_code \<and>
   weighted_length ''abracadabra'' (codes run_abracadabra)
     \<le> weighted_length ''abracadabra'' fixed_width_code \<and>
   int (length (encoded run_abracadabra)) = weighted_length ''abracadabra'' (codes run_abracadabra) \<and>
   length (encoded run_abracadabra) = 23"
  using huffman_code_optimal[OF main_run_abracadabra] main_run_abracadabra fixed_width_code_ok
  by blast

subsection \<open>C8: the structure of the built tree\<close>

text \<open>
  C8 (tree structure invariant): a tree the builder returns is a strict binary tree, every
  internal node has two non-null children and the sum of their frequencies as its
  frequency (\<open>well_formed\<close>), and its number of leaves is the number of distinct symbols
  of the text, which is at least one.
\<close>

theorem built_tree_structure:
  assumes "build_tree text (Inr t)"
  shows "well_formed t \<and> length (leaves t) = card (set text) \<and> 1 \<le> card (set text)"
proof -
  have "text \<noteq> []" using assms by (rule build_tree_nonempty)
  then have "0 < card (set text)" by (simp add: card_gt_0_iff)
  then have "1 \<le> card (set text)" by linarith
  with build_tree_leaves(1,4)[OF assms] show ?thesis by blast
qed

theorem built_tree_structure_witness:
  "build_tree ''abc'' (Inr tree_abc) \<and> well_formed tree_abc \<and>
   length (leaves tree_abc) = 3 \<and> card (set ''abc'') = 3"
  using built_tree_structure[OF build_tree_tree_abc] build_tree_tree_abc
  by (simp add: tree_abc_def tree_ab_def)

subsection \<open>C9: encode\<close>

text \<open>
  C9: \<open>encode\<close> returns the concatenation, in input order, of the codes of the symbols
  of the text; it fails with \<open>std::out_of_range\<close> exactly when a symbol of the text is
  not a key of the table; and the table built from the tree of the same text has every
  symbol of the text as a key, so that no run of the program ends in that error.
\<close>

theorem encode_concatenates_or_fails:
  "encode text cs =
     (if set text \<subseteq> dom cs then Inr (concat (map (\<lambda>c. the (cs c)) text)) else Inl OutOfRange) \<and>
   (build_tree text (Inr t) \<longrightarrow> set text \<subseteq> dom (buildCodes (Some t) [] Map.empty)) \<and>
   \<not> main_run text (Inl OutOfRange)"
  using build_tree_codes_dom[of "text" t]
  by (auto simp: encode_def encode_loop_concat main_run_no_lookup_error)

theorem encode_concatenates_or_fails_witness:
  "build_tree ''ab'' (Inr tree_ab) \<and>
   encode ''ab'' (buildCodes (Some tree_ab) [] Map.empty) = Inr ''01'' \<and>
   encode ''abc'' (buildCodes (Some tree_ab) [] Map.empty) = Inl OutOfRange"
  using encode_concatenates_or_fails[of "''ab''" "buildCodes (Some tree_ab) [] Map.empty" tree_ab]
    encode_concatenates_or_fails[of "''abc''" "buildCodes (Some tree_ab) [] Map.empty" tree_ab]
    build_tree_tree_ab
  by (simp add: tree_ab_def)

subsection \<open>C10: null pointers in decode\<close>

text \<open>
  C10 (\<open>decode\<close> dereferences no null pointer on any root the builder produces, the
  single-leaf root included, and any non-empty stream of \<open>0\<close> and \<open>1\<close>). On the
  single-leaf root built for \<open>aaaa\<close> and the stream \<open>0\<close>, \<open>current\<close> becomes the null left
  child of the leaf and the leaf test reads \<open>current->left\<close>.
\<close>

theorem decode_single_leaf_null_dereference:
  "build_tree ''aaaa'' (Inr (Node (CHR ''a'') 4 None None)) \<and>
   decode ''0'' (Some (Node (CHR ''a'') 4 None None)) = Inl NullDereference"
  by (simp add: build_tree_aaaa decode_def)

section \<open>Further properties\<close>

subsection \<open>Round trip for two or more distinct symbols\<close>

text \<open>
  When the text has at least two distinct symbols, the text decoded by a successful run
  is the input text.
\<close>

theorem round_trip_two_symbols:
  assumes "main_run text (Inr out)" "2 \<le> card (set text)"
  shows "decoded out = text"
proof -
  note run = main_run_InrD[OF assms(1)]
  let ?t = "root out"
  have st: "strict ?t" using build_tree_leaves(1)[OF run(1)] by (rule well_formed_strict)
  have nl: "\<not> is_leaf ?t" using run(1) assms(2) by (rule build_tree_not_leaf)
  have dom: "set text \<subseteq> dom (codes out)"
    using build_tree_codes_dom[OF run(1)] run(2) by simp
  with run(3) have enc: "encoded out = concat (map (\<lambda>c. the (codes out c)) text)"
    by (simp add: encode_def encode_loop_concat)
  have "(c, the (codes out c)) \<in> set (paths (Some ?t) [])" if "c \<in> set text" for c
  proof -
    from that dom obtain p where "codes out c = Some p" by auto
    then show ?thesis using build_tree_codes[OF run(1), of c p] run(2) by simp
  qed
  from decode_concat[OF st nl this, where res = "[]"] run(4) enc
  show ?thesis by (simp add: decode_def)
qed

theorem round_trip_two_symbols_witness:
  "main_run ''ab'' (Inr \<lparr>root = tree_ab, codes = [CHR ''a'' \<mapsto> ''0'', CHR ''b'' \<mapsto> ''1''],
      encoded = ''01'', decoded = ''ab''\<rparr>) \<and> 2 \<le> card (set ''ab'') \<and>
   decoded \<lparr>root = tree_ab, codes = [CHR ''a'' \<mapsto> ''0'', CHR ''b'' \<mapsto> ''1''],
      encoded = ''01'', decoded = ''ab''\<rparr> = ''ab''"
proof -
  have c: "2 \<le> card (set ''ab'')" by simp
  from round_trip_two_symbols[OF main_run_ab c] main_run_ab c show ?thesis by simp
qed

subsection \<open>Non-empty codes for two or more distinct symbols\<close>

text \<open>
  When the text has at least two distinct symbols, every code of the table is a non-empty
  string of \<open>0\<close> and \<open>1\<close>.
\<close>

theorem codes_nonempty_two_symbols:
  assumes "main_run text (Inr out)" "2 \<le> card (set text)" "codes out c = Some p"
  shows "p \<noteq> [] \<and> set p \<subseteq> {CHR ''0'', CHR ''1''}"
proof -
  note run = main_run_InrD[OF assms(1)]
  have nl: "\<not> is_leaf (root out)" using run(1) assms(2) by (rule build_tree_not_leaf)
  from assms(3) have inp: "(c, p) \<in> set (paths (Some (root out)) [])"
    unfolding run(2) by (rule buildCodes_SomeD)
  from paths_nonempty[OF inp nl] paths_chars[OF inp] show ?thesis by simp
qed

theorem codes_nonempty_two_symbols_witness:
  "main_run ''abracadabra'' (Inr run_abracadabra) \<and> 2 \<le> card (set ''abracadabra'') \<and>
   codes run_abracadabra (CHR ''r'') = Some ''111'' \<and>
   ''111'' \<noteq> [] \<and> set ''111'' \<subseteq> {CHR ''0'', CHR ''1''}"
proof -
  have "set ''abracadabra'' = {CHR ''a'', CHR ''b'', CHR ''r'', CHR ''c'', CHR ''d''}" by auto
  then have c: "2 \<le> card (set ''abracadabra'')" by simp
  have r: "codes run_abracadabra (CHR ''r'') = Some ''111''" by (simp add: run_abracadabra_def)
  from codes_nonempty_two_symbols[OF main_run_abracadabra c r] main_run_abracadabra c r
  show ?thesis by simp
qed

subsection \<open>Totality\<close>

text \<open>
  For a non-empty text of at most \<open>INT_MAX\<close> characters the program has a run, and every
  run ends without an error: no count and no sum of frequencies overflows, the queue is
  not empty at \<open>pq.top()\<close>, every symbol has a code and \<open>decode\<close> reads no null pointer.
\<close>

theorem main_total:
  assumes "text \<noteq> []" "int (length text) \<le> INT_MAX"
  shows "(\<exists>out. main_run text (Inr out)) \<and> (\<forall>res. main_run text res \<longrightarrow> (\<exists>out. res = Inr out))"
proof
  from build_tree_total[OF assms] obtain t where t: "build_tree text (Inr t)" ..
  from codec_total[OF t] obtain out where "codec text t = Inr out" ..
  with main_run.with_tree[OF t] show "\<exists>out. main_run text (Inr out)" by auto
  show "\<forall>res. main_run text res \<longrightarrow> (\<exists>out. res = Inr out)"
  proof (intro allI impI)
    fix res assume "main_run text res"
    then show "\<exists>out. res = Inr out"
    proof (cases rule: main_run.cases)
      case (no_tree e)
      with build_tree_no_error[OF assms, of "Inl e"] show ?thesis by simp
    next
      case (with_tree r)
      with codec_total[of "text" r] show ?thesis by simp
    qed
  qed
qed

theorem main_total_witness:
  "''abracadabra'' \<noteq> [] \<and> int (length ''abracadabra'') \<le> INT_MAX \<and>
   (\<exists>out. main_run ''abracadabra'' (Inr out)) \<and> \<not> main_run ''abracadabra'' (Inl SignedOverflow)"
proof -
  have a: "''abracadabra'' \<noteq> []" and b: "int (length ''abracadabra'') \<le> INT_MAX"
    by (simp_all add: INT_MAX_def)
  from main_total[OF a b] a b show ?thesis by blast
qed

end
